theory Spec2Isabelle
  imports Complex_Main "HOL-Library.AList"
begin

section \<open>Shallow embedding of \<^verbatim>\<open>appdaemon/app_management.py\<close>\<close>

text \<open>
  The class \<^verbatim>\<open>AppManagement\<close> reconciles the set of running apps with the
  configuration documents and code modules found on disk.  App names, module
  names and file paths are Python strings and are modelled as \<^typ>\<open>string\<close>.
  Exceptions are values of the type \<open>error\<close>; \<open>ImportError\<close> stands for whatever
  the module loader raises.  The filter scripts of \<^verbatim>\<open>process_filters\<close>, the
  profiler and the module import path are left out.
\<close>

type_synonym app_name = string

datatype error = ValueError | TypeError | KeyError | ImportError

subsection \<open>\<^verbatim>\<open>topological_sort\<close>\<close>

text \<open>
  \<^verbatim>\<open>topological_sort(source)\<close> is a generator.  Its \<^verbatim>\<open>pending\<close> list holds one
  pair per node: the name and the \<^emph>\<open>set\<close> of dependencies not yet removed by
  \<^verbatim>\<open>difference_update\<close>.  The body of the \<^verbatim>\<open>for entry in pending\<close> loop works on
  three lists: \<^verbatim>\<open>emitted\<close> (the names emitted in the previous pass, to which the
  names of the current pass are appended as they are yielded),
  \<^verbatim>\<open>next_pending\<close> and \<^verbatim>\<open>next_emitted\<close>.  Every \<^verbatim>\<open>yield name\<close> is followed by
  \<^verbatim>\<open>next_emitted.append(name)\<close>, so the names yielded in a pass are exactly the
  final \<^verbatim>\<open>next_emitted\<close> of that pass.
\<close>

fun scan_pending ::
  "(app_name \<times> app_name set) list \<Rightarrow>
   app_name list \<times> (app_name \<times> app_name set) list \<times> app_name list \<Rightarrow>
   app_name list \<times> (app_name \<times> app_name set) list \<times> app_name list"
where
  "scan_pending [] st = st"
| "scan_pending ((name, deps) # rest) (emitted, next_pending, next_emitted) =
     (let deps' = deps - set emitted in
      if deps' \<noteq> {}
      then scan_pending rest (emitted, next_pending @ [(name, deps')], next_emitted)
      else scan_pending rest (emitted @ [name], next_pending, next_emitted @ [name]))"

text \<open>
  The \<^verbatim>\<open>while pending\<close> loop.  The third argument collects what the generator
  has yielded so far; the result is the complete list of yielded names together
  with \<open>Some ValueError\<close> when the generator ended by raising
  \<^verbatim>\<open>ValueError("cyclic dependancy detected")\<close> and \<open>None\<close> when it was exhausted
  normally.
\<close>

lemma scan_pending_length:
  "scan_pending ps (em, np, ne) = (em', np', ne') \<Longrightarrow>
   length np' + length ne' = length np + length ne + length ps"
  by (induction ps arbitrary: em np ne) (auto simp: Let_def split: if_splits)

lemma scan_pending_shorter:
  "scan_pending ps (em, [], []) = (em', np', ne') \<Longrightarrow> ne' \<noteq> [] \<Longrightarrow> length np' < length ps"
  using scan_pending_length [of ps em "[]" "[]" em' np' ne'] by (cases ne') auto

function topological_sort_loop ::
  "(app_name \<times> app_name set) list \<Rightarrow> app_name list \<Rightarrow> app_name list \<Rightarrow>
   app_name list \<times> error option"
where
  "topological_sort_loop pending emitted yielded =
     (if pending = [] then (yielded, None)
      else (case scan_pending pending (emitted, [], []) of
              (emitted', next_pending, next_emitted) \<Rightarrow>
                if next_emitted = [] then (yielded, Some ValueError)
                else topological_sort_loop next_pending next_emitted
                       (yielded @ next_emitted)))"
  by pat_completeness auto
termination
proof (relation "measure (\<lambda>(pending, emitted, yielded). length pending)", goal_cases)
  case 1
  show ?case by simp
next
  case (2 pending emitted yielded x y xa ya)
  then have "scan_pending pending (emitted, [], []) = (x, xa, ya)"
    by simp
  from scan_pending_shorter [OF this] 2 show ?case by simp
qed

declare topological_sort_loop.simps [simp del]

definition topological_sort ::
  "(app_name \<times> app_name list) list \<Rightarrow> app_name list \<times> error option"
where
  "topological_sort source =
     topological_sort_loop (map (\<lambda>(name, deps). (name, set deps)) source) [] []"

subsection \<open>The app configuration\<close>

text \<open>
  \<^verbatim>\<open>self.app_config\<close> is a dictionary from names to the parsed bodies of the
  configuration documents.  It is modelled as an association list in the
  dictionary's iteration order.  An app's body is a dictionary itself; the
  record \<open>app_args\<close> has one optional field for every key this module reads
  (\<open>None\<close> when the key is absent; \<^verbatim>\<open>utils.single_or_list\<close> is applied to the
  list-valued keys, and a priority is a number) and the map \<open>other_args\<close> for
  the keys only the app itself reads.  The entry named
  \<^verbatim>\<open>global_modules\<close> is not an app: its body is the list of global module names.
  For such a list Python's \<^verbatim>\<open>key in body\<close> is list membership and
  \<^verbatim>\<open>body[key]\<close> raises \<^verbatim>\<open>TypeError\<close>.  A document can also bind a name to a
  number; for a number both \<^verbatim>\<open>key in body\<close> and \<^verbatim>\<open>body[key]\<close> raise
  \<^verbatim>\<open>TypeError\<close>.  Bodies that are strings are outside the model.
\<close>

record app_args =
  module :: "string option"
  class_name :: "string option"
  dependencies :: "app_name list option"
  global_dependencies :: "string list option"
  priority :: "rat option"
  disable :: "bool option"
  plugin :: "string list option"
  pin_thread :: "int option"
  other_args :: "string \<rightharpoonup> string"

datatype entry = App app_args | GlobalModules "string list" | Scalar int

type_synonym config = "(app_name \<times> entry) list"

text \<open>
  The idiom \<^verbatim>\<open>if "dependencies" in cfg[app]: for dep in
  utils.single_or_list(cfg[app]["dependencies"])\<close> occurs in four functions:
  \<open>dependencies_of\<close> is the list the \<^verbatim>\<open>for\<close> loop runs over (empty when the
  key is absent), or the \<^verbatim>\<open>TypeError\<close> of the subscript.
\<close>

fun dependencies_of :: "entry \<Rightarrow> error + app_name list" where
  "dependencies_of (App a) = Inr (case dependencies a of None \<Rightarrow> [] | Some ds \<Rightarrow> ds)"
| "dependencies_of (GlobalModules gl) =
     (if ''dependencies'' \<in> set gl then Inl TypeError else Inr [])"
| "dependencies_of (Scalar n) = Inl TypeError"

fun has_dependencies :: "entry \<Rightarrow> error + bool" where
  "has_dependencies (App a) = Inr (dependencies a \<noteq> None)"
| "has_dependencies (GlobalModules gl) = Inr (''dependencies'' \<in> set gl)"
| "has_dependencies (Scalar n) = Inl TypeError"

text \<open>
  \<^verbatim>\<open>float(cfg[app]["priority"])\<close> when the key is present and \<^verbatim>\<open>float(50)\<close>
  otherwise.  Priorities are Python floats; they are modelled as rationals, so
  \<open>50.1\<close> is \<open>501 / 10\<close> and the step \<open>0.0001\<close> is \<open>1 / 10000\<close>.
\<close>

fun configured_priority :: "entry \<Rightarrow> error + rat" where
  "configured_priority (App a) = Inr (case priority a of None \<Rightarrow> 50 | Some p \<Rightarrow> p)"
| "configured_priority (GlobalModules gl) =
     (if ''priority'' \<in> set gl then Inl TypeError else Inr 50)"
| "configured_priority (Scalar n) = Inl TypeError"

subsection \<open>\<^verbatim>\<open>get_dependent_apps\<close>\<close>

text \<open>
  \<^verbatim>\<open>get_dependent_apps(dependee, deps)\<close> appends to the list \<^verbatim>\<open>deps\<close> every app
  that names \<^verbatim>\<open>dependee\<close> among its dependencies and is not in the list yet, and
  calls itself for each app it appends.  It returns \<^verbatim>\<open>None\<close>, so the test
  \<^verbatim>\<open>new_deps is not None\<close> always fails; the model returns the updated list.
  \<open>dependents_in_apps\<close> is the loop \<^verbatim>\<open>for app in self.app_config\<close> and
  \<open>dependents_in_deps\<close> the loop over the dependencies of one app.
\<close>

function get_dependent_apps :: "config \<Rightarrow> app_name \<Rightarrow> app_name list \<Rightarrow> error + app_name list"
  and dependents_in_apps ::
    "config \<Rightarrow> app_name \<Rightarrow> config \<Rightarrow> app_name list \<Rightarrow> error + app_name list"
  and dependents_in_deps ::
    "config \<Rightarrow> app_name \<Rightarrow> app_name \<Rightarrow> app_name list \<Rightarrow> app_name list \<Rightarrow> error + app_name list"
where
  "get_dependent_apps cfg dependee deps = dependents_in_apps cfg dependee cfg deps"
| "dependents_in_apps cfg dependee [] deps = Inr deps"
| "dependents_in_apps cfg dependee ((app, e) # rest) deps =
     (case dependencies_of e of
        Inl err \<Rightarrow> Inl err
      | Inr ds \<Rightarrow>
          (case dependents_in_deps cfg dependee app ds deps of
             Inl err \<Rightarrow> Inl err
           | Inr deps' \<Rightarrow> dependents_in_apps cfg dependee rest deps'))"
| "dependents_in_deps cfg dependee app [] deps = Inr deps"
| "dependents_in_deps cfg dependee app (dep # ds) deps =
     (if dep = dependee \<and> app \<notin> set deps
      then (case get_dependent_apps cfg app (deps @ [app]) of
              Inl err \<Rightarrow> Inl err
            | Inr deps' \<Rightarrow> dependents_in_deps cfg dependee app ds deps')
      else dependents_in_deps cfg dependee app ds deps)"
  by pat_completeness auto



text \<open>
  The recursion is nested: the list a loop continues with is the result of a
  recursive call.  It terminates because the list only grows and every
  recursive call of \<open>get_dependent_apps\<close> follows the append of a name that was
  not in the list.
\<close>

lemma get_dependent_apps_grows:
  "get_dependent_apps_dependents_in_apps_dependents_in_deps_dom (Inl (cfg, dependee, deps)) \<Longrightarrow>
     (\<forall>r. get_dependent_apps cfg dependee deps = Inr r \<longrightarrow> set deps \<subseteq> set r)"
  "get_dependent_apps_dependents_in_apps_dependents_in_deps_dom (Inr (Inl (cfg, dependee, rest, deps))) \<Longrightarrow>
     (\<forall>r. dependents_in_apps cfg dependee rest deps = Inr r \<longrightarrow> set deps \<subseteq> set r)"
  "get_dependent_apps_dependents_in_apps_dependents_in_deps_dom (Inr (Inr (cfg, dependee, app, ds, deps))) \<Longrightarrow>
     (\<forall>r. dependents_in_deps cfg dependee app ds deps = Inr r \<longrightarrow> set deps \<subseteq> set r)"
proof (induction rule: get_dependent_apps_dependents_in_apps_dependents_in_deps.pinduct)
  case (1 cfg dependee deps)
  then show ?case by (simp add: get_dependent_apps.psimps)
next
  case (2 cfg dependee deps)
  then show ?case by (simp add: dependents_in_apps.psimps)
next
  case (3 cfg dependee app e rest deps)
  show ?case
  proof (intro allI impI)
    fix r assume r: "dependents_in_apps cfg dependee ((app, e) # rest) deps = Inr r"
    from r "3.hyps" obtain ds where ds: "dependencies_of e = Inr ds"
      by (cases "dependencies_of e") (simp_all add: dependents_in_apps.psimps)
    from r "3.hyps" ds obtain deps' where
      d': "dependents_in_deps cfg dependee app ds deps = Inr deps'"
      by (cases "dependents_in_deps cfg dependee app ds deps")
         (simp_all add: dependents_in_apps.psimps)
    from r "3.hyps" ds d' have "dependents_in_apps cfg dependee rest deps' = Inr r"
      by (simp add: dependents_in_apps.psimps)
    with "3.IH"(2) [OF ds d'] have "set deps' \<subseteq> set r" by blast
    moreover from "3.IH"(1) [OF ds] d' have "set deps \<subseteq> set deps'" by blast
    ultimately show "set deps \<subseteq> set r" by blast
  qed
next
  case (4 cfg dependee app deps)
  then show ?case by (simp add: dependents_in_deps.psimps)
next
  case (5 cfg dependee app dep ds deps)
  show ?case
  proof (intro allI impI)
    fix r assume r: "dependents_in_deps cfg dependee app (dep # ds) deps = Inr r"
    show "set deps \<subseteq> set r"
    proof (cases "dep = dependee \<and> app \<notin> set deps")
      case True
      from r "5.hyps" True obtain deps' where
        d': "get_dependent_apps cfg app (deps @ [app]) = Inr deps'"
        by (cases "get_dependent_apps cfg app (deps @ [app])")
           (simp_all add: dependents_in_deps.psimps)
      from r "5.hyps" True d' have "dependents_in_deps cfg dependee app ds deps' = Inr r"
        by (simp add: dependents_in_deps.psimps)
      with "5.IH"(2) [OF True d'] have "set deps' \<subseteq> set r" by blast
      moreover from "5.IH"(1) [OF True] d' have "set (deps @ [app]) \<subseteq> set deps'" by blast
      ultimately show ?thesis by auto
    next
      case False
      with r "5.hyps" have "dependents_in_deps cfg dependee app ds deps = Inr r"
        by (simp add: dependents_in_deps.psimps)
      with "5.IH"(3) [OF False] show ?thesis by blast
    qed
  qed
qed

termination get_dependent_apps
proof (relation "inv_image (less_than <*lex*> less_than <*lex*> less_than)
     (\<lambda>x. case x of
        Inl (cfg, dependee, deps) \<Rightarrow> (card (fst ` set cfg - set deps), 2::nat, 0::nat)
      | Inr (Inl (cfg, dependee, rest, deps)) \<Rightarrow>
          (card ((fst ` set cfg \<union> fst ` set rest) - set deps), 1, length rest)
      | Inr (Inr (cfg, dependee, app, ds, deps)) \<Rightarrow>
          (card ((fst ` set cfg \<union> {app}) - set deps), 0, length ds))", goal_cases)
  case 1
  show ?case by (intro wf_inv_image wf_lex_prod wf_less_than)
next
  case (2 cfg dependee deps)
  show ?case by simp
next
  case (3 cfg dependee app e rest deps b)
  have "card ((fst ` set cfg \<union> {app}) - set deps)
          \<le> card ((fst ` set cfg \<union> fst ` set ((app, e) # rest)) - set deps)"
    by (intro card_mono) auto
  then show ?case by auto
next
  case (4 cfg dependee app e rest deps b ba)
  from get_dependent_apps_grows(3) [OF 4(3)] 4(2) have "set deps \<subseteq> set ba" by blast
  then have "card ((fst ` set cfg \<union> fst ` set rest) - set ba)
          \<le> card ((fst ` set cfg \<union> fst ` set ((app, e) # rest)) - set deps)"
    by (intro card_mono) auto
  then show ?case by auto
next
  case (5 cfg dependee app dep ds deps)
  then have "app \<notin> set deps" by simp
  then have "fst ` set cfg - set (deps @ [app]) \<subset> (fst ` set cfg \<union> {app}) - set deps"
    by auto
  then have "card (fst ` set cfg - set (deps @ [app])) < card ((fst ` set cfg \<union> {app}) - set deps)"
    by (intro psubset_card_mono) auto
  then show ?case by simp
next
  case (6 cfg dependee app dep ds deps b)
  from get_dependent_apps_grows(1) [OF 6(3)] 6(2) have "set deps \<subseteq> set b" by auto
  then have "card ((fst ` set cfg \<union> {app}) - set b) \<le> card ((fst ` set cfg \<union> {app}) - set deps)"
    by (intro card_mono) auto
  then show ?case by auto
next
  case (7 cfg dependee app dep ds deps)
  show ?case by simp
qed


subsection \<open>\<^verbatim>\<open>get_app_deps_and_prios\<close>\<close>

text \<open>
  The first loop of \<^verbatim>\<open>get_app_deps_and_prios(applist)\<close> builds \<^verbatim>\<open>deplist\<close>: the
  apps of \<^verbatim>\<open>applist\<close> and their dependents.
\<close>

fun collect_deplist :: "config \<Rightarrow> app_name list \<Rightarrow> app_name list \<Rightarrow> error + app_name list" where
  "collect_deplist cfg [] deplist = Inr deplist"
| "collect_deplist cfg (app # rest) deplist =
     (case get_dependent_apps cfg app (if app \<notin> set deplist then deplist @ [app] else deplist) of
        Inl err \<Rightarrow> Inl err
      | Inr deplist' \<Rightarrow> collect_deplist cfg rest deplist')"

text \<open>
  The second loop builds the dependency specification \<^verbatim>\<open>deps\<close> over the full
  list of configured names.  A dependency that is not a key of the
  configuration is not appended to \<^verbatim>\<open>dependees\<close>; two warnings are logged for
  it, ``Unable to find app \<open>dep\<close> in dependencies for \<open>app\<close>'' and
  ``Ignoring app \<open>app\<close>''.  The pair \<^verbatim>\<open>(app, dependees)\<close> is appended in
  either case.
\<close>

datatype log_msg = UnableToFindApp app_name app_name | IgnoringApp app_name

fun check_dependees ::
  "config \<Rightarrow> app_name \<Rightarrow> app_name list \<Rightarrow> app_name list \<times> log_msg list" where
  "check_dependees cfg app [] = ([], [])"
| "check_dependees cfg app (dep # ds) =
     (case check_dependees cfg app ds of (dependees, warnings) \<Rightarrow>
        if dep \<in> fst ` set cfg then (dep # dependees, warnings)
        else (dependees, UnableToFindApp dep app # IgnoringApp app # warnings))"

fun build_deps ::
  "config \<Rightarrow> config \<Rightarrow> error + ((app_name \<times> app_name list) list \<times> log_msg list)" where
  "build_deps cfg [] = Inr ([], [])"
| "build_deps cfg ((app, e) # rest) =
     (case dependencies_of e of
        Inl err \<Rightarrow> Inl err
      | Inr ds \<Rightarrow>
          (case check_dependees cfg app ds of (dependees, warnings) \<Rightarrow>
             (case build_deps cfg rest of
                Inl err \<Rightarrow> Inl err
              | Inr (deps, warnings') \<Rightarrow> Inr ((app, dependees) # deps, warnings @ warnings'))))"

text \<open>
  \<^verbatim>\<open>app_has_dependents(name)\<close> returns at the first app that names \<^verbatim>\<open>name\<close>.
\<close>

fun app_has_dependents :: "config \<Rightarrow> app_name \<Rightarrow> error + bool" where
  "app_has_dependents [] name = Inr False"
| "app_has_dependents ((app, e) # rest) name =
     (case dependencies_of e of
        Inl err \<Rightarrow> Inl err
      | Inr ds \<Rightarrow> if name \<in> set ds then Inr True else app_has_dependents rest name)"

text \<open>
  The body of \<^verbatim>\<open>for app in self.topological_sort(deps)\<close>, run over the names
  the generator yields.  \<^verbatim>\<open>prio_apps\<close> is a dictionary; its insertion order
  matters to the later stable \<^verbatim>\<open>sorted\<close>, so it is an association list and
  \<^verbatim>\<open>prio_apps[app] = v\<close> is \<open>AList.update\<close>, which replaces in place or appends.
  Python's \<^verbatim>\<open>or\<close> does not call \<^verbatim>\<open>app_has_dependents\<close> when the app has the
  key \<^verbatim>\<open>dependencies\<close>.
\<close>

fun assign_prios ::
  "config \<Rightarrow> app_name list \<Rightarrow> (app_name \<times> rat) list \<times> rat \<Rightarrow>
   error + ((app_name \<times> rat) list \<times> rat)"
where
  "assign_prios cfg [] st = Inr st"
| "assign_prios cfg (app # rest) (prio_apps, prio) =
     (case map_of cfg app of
        None \<Rightarrow> Inl KeyError
      | Some e \<Rightarrow>
          (case has_dependencies e of
             Inl err \<Rightarrow> Inl err
           | Inr True \<Rightarrow>
               assign_prios cfg rest (AList.update app prio prio_apps, prio + 1 / 10000)
           | Inr False \<Rightarrow>
               (case app_has_dependents cfg app of
                  Inl err \<Rightarrow> Inl err
                | Inr True \<Rightarrow>
                    assign_prios cfg rest (AList.update app prio prio_apps, prio + 1 / 10000)
                | Inr False \<Rightarrow>
                    (case configured_priority e of
                       Inl err \<Rightarrow> Inl err
                     | Inr p \<Rightarrow>
                         assign_prios cfg rest (AList.update app p prio_apps, prio)))))"

text \<open>
  The \<^verbatim>\<open>try\<close> block of \<^verbatim>\<open>get_app_deps_and_prios\<close>: the dictionary \<^verbatim>\<open>prio_apps\<close>
  after the loop over the generator.  The \<^verbatim>\<open>ValueError\<close> the generator raises
  on a cycle is caught and passed over, so \<^verbatim>\<open>prio_apps\<close> keeps the entries made
  for the names yielded before; any other exception propagates.
\<close>

definition assigned_priorities :: "config \<Rightarrow> error + (app_name \<times> rat) list" where
  "assigned_priorities cfg =
     (case build_deps cfg cfg of
        Inl err \<Rightarrow> Inl err
      | Inr (deps, warnings) \<Rightarrow>
          (case topological_sort deps of (order, raised) \<Rightarrow>
             (case assign_prios cfg order ([], 501 / 10) of
                Inl err \<Rightarrow> Inl err
              | Inr (prio_apps, prio) \<Rightarrow> Inr prio_apps)))"

definition get_app_deps_and_prios ::
  "config \<Rightarrow> app_name list \<Rightarrow> error + (app_name \<times> rat) list"
where
  "get_app_deps_and_prios cfg applist =
     (case collect_deplist cfg applist [] of
        Inl err \<Rightarrow> Inl err
      | Inr deplist \<Rightarrow>
          (case assigned_priorities cfg of
             Inl err \<Rightarrow> Inl err
           | Inr prio_apps \<Rightarrow> Inr (filter (\<lambda>(app, prio). app \<in> set deplist) prio_apps)))"

subsection \<open>The manager's state and its environment\<close>

text \<open>
  The fields of \<^verbatim>\<open>AppManagement\<close> that the reconciliation cycle reads and writes.
  \<^verbatim>\<open>app_config_files\<close> starts as the empty dictionary \<^verbatim>\<open>{}\<close> (here \<open>None\<close>) and
  is a list of paths after the first scan.  \<^verbatim>\<open>monitored_files\<close> maps the path
  of a code module to its modification time.  \<^verbatim>\<open>objects\<close> is the registry of
  live app objects.  Modification times are floats that are only compared;
  they are modelled as rationals.  \<open>trace\<close> records the calls made to the
  lifecycle methods and to the collaborators, in order.
\<close>

type_synonym path = string
type_synonym timestamp = rat

record app_object =
  pin_app :: bool
  obj_pin_thread :: int

datatype event =
    TermObject app_name
  | InitObject app_name
  | InitializeApp app_name
  | CalculatePinThreads
  | AddThread
  | ReadApp path bool
  | RemovedFromInit app_name

record state =
  app_config :: config
  app_config_file_modified :: timestamp
  app_config_files :: "path list option"
  monitored_files :: "(path \<times> timestamp) list"
  modules :: "string list"
  objects :: "(app_name \<times> app_object) list"
  trace :: "event list"

text \<open>
  What a cycle finds outside the manager.  \<open>apps_enabled\<close> is \<^verbatim>\<open>self.AD.apps\<close>.
  \<open>config_file\<close> is the path, the modification time and the parsed content
  (\<open>None\<close> when \<^verbatim>\<open>read_config_file\<close> returns \<^verbatim>\<open>None\<close>) of \<^verbatim>\<open>self.app_config_file\<close>
  when \<^verbatim>\<open>os.path.isfile\<close> holds for it (the deprecated \<^verbatim>\<open>apps.yaml\<close> of the
  configuration directory).
  \<open>yaml_files\<close> lists, in the order of \<^verbatim>\<open>os.walk\<close>, the \<^verbatim>\<open>.yaml\<close> files of the app
  directory outside excluded and \<^verbatim>\<open>__pycache__\<close> directories, with their
  modification time and what \<^verbatim>\<open>read_config_file\<close> returns for them.
  \<open>py_files\<close> lists the \<^verbatim>\<open>.py\<close> files found, with the modification time, or
  \<open>None\<close> for a file that \<^verbatim>\<open>open\<close> fails on.  \<open>init_py\<close> is
  \<^verbatim>\<open>os.path.join(app_dir, "__init__.py")\<close>.  The remaining fields stand for the
  collaborators: the worker pool (\<open>threads\<close>, \<open>auto_pin\<close>, \<open>should_pin\<close>), the
  module loader (\<open>loads\<close>: whether importing or reloading the named module
  succeeds; \<open>in_sys_modules\<close>) and the instance factory (\<open>instantiate\<close>).
\<close>

datatype doc_value = Null | Body entry

datatype document = NotADict | Dict "(app_name \<times> doc_value) list"

datatype construct_outcome = Instance | ClassNotFound | ConstructorRaises

record env =
  apps_enabled :: bool
  config_file :: "(path \<times> timestamp \<times> config option) option"
  yaml_files :: "(path \<times> timestamp \<times> document) list"
  py_files :: "(path \<times> timestamp option) list"
  init_py :: path
  threads :: nat
  auto_pin :: bool
  should_pin :: "app_name \<Rightarrow> bool"
  loads :: "string \<Rightarrow> bool"
  in_sys_modules :: "string \<Rightarrow> bool"
  instantiate :: "app_name \<Rightarrow> construct_outcome"

text \<open>
  The dictionaries \<^verbatim>\<open>terminate_apps\<close> and \<^verbatim>\<open>initialize_apps\<close> map names to \<open>1\<close>:
  they are sets in insertion order.  \<^verbatim>\<open>d[name] = 1\<close> appends the name unless it
  is a key already.
\<close>

definition dict_add :: "app_name \<Rightarrow> app_name list \<Rightarrow> app_name list" where
  "dict_add name d = (if name \<in> set d then d else d @ [name])"

record plan =
  init_apps :: "app_name list"
  term_apps :: "app_name list"
  total_apps :: nat

subsection \<open>\<^verbatim>\<open>term_object\<close>\<close>

text \<open>
  \<^verbatim>\<open>term_object(name)\<close> calls the object's \<^verbatim>\<open>terminate\<close> hook (an exception of
  the hook is caught and logged), deletes the name from the registry and has
  the callback, scheduler and API collaborators forget the name.
\<close>

definition term_object :: "app_name \<Rightarrow> state \<Rightarrow> state" where
  "term_object name st =
     st\<lparr>objects := filter (\<lambda>(n, obj). n \<noteq> name) (objects st),
        trace := trace st @ [TermObject name]\<rparr>"

subsection \<open>\<^verbatim>\<open>read_config\<close>\<close>

text \<open>
  The test \<^verbatim>\<open>"class" in body and "module" in body\<close>.
\<close>

fun has_class_and_module :: "entry \<Rightarrow> error + bool" where
  "has_class_and_module (App a) = Inr (class_name a \<noteq> None \<and> module a \<noteq> None)"
| "has_class_and_module (GlobalModules gl) = Inr (''class'' \<in> set gl \<and> ''module'' \<in> set gl)"
| "has_class_and_module (Scalar n) = Inl TypeError"

text \<open>
  The loop \<^verbatim>\<open>for app in config\<close> over one parsed document: a name bound to
  \<^verbatim>\<open>None\<close> is skipped, \<^verbatim>\<open>global_modules\<close> is taken as it is, and any other entry
  is taken when it has a class and a module.
\<close>

fun valid_apps_of :: "(app_name \<times> doc_value) list \<Rightarrow> config \<Rightarrow> error + config" where
  "valid_apps_of [] valid_apps = Inr valid_apps"
| "valid_apps_of ((app, Null) # rest) valid_apps = valid_apps_of rest valid_apps"
| "valid_apps_of ((app, Body e) # rest) valid_apps =
     (if app = ''global_modules'' then valid_apps_of rest (AList.update app e valid_apps)
      else (case has_class_and_module e of
              Inl err \<Rightarrow> Inl err
            | Inr True \<Rightarrow> valid_apps_of rest (AList.update app e valid_apps)
            | Inr False \<Rightarrow> valid_apps_of rest valid_apps))"

text \<open>
  The loop \<^verbatim>\<open>for app in valid_apps\<close>: the first document that defines a name
  wins.
\<close>

fun merge_valid_apps :: "config \<Rightarrow> config \<Rightarrow> config" where
  "merge_valid_apps [] new_config = new_config"
| "merge_valid_apps ((app, e) # rest) new_config =
     (if app \<in> fst ` set new_config then merge_valid_apps rest new_config
      else merge_valid_apps rest (new_config @ [(app, e)]))"

text \<open>
  \<^verbatim>\<open>read_config\<close> over the documents of the app directory.  \<^verbatim>\<open>new_config\<close> stays
  \<^verbatim>\<open>None\<close> when there is no document at all.
\<close>

fun read_config_files ::
  "(path \<times> timestamp \<times> document) list \<Rightarrow> config option \<Rightarrow> error + config option" where
  "read_config_files [] new_config = Inr new_config"
| "read_config_files ((file, ts, doc) # rest) new_config =
     (case (case doc of NotADict \<Rightarrow> Inr [] | Dict entries \<Rightarrow> valid_apps_of entries []) of
        Inl err \<Rightarrow> Inl err
      | Inr valid_apps \<Rightarrow>
          read_config_files rest
            (Some (merge_valid_apps valid_apps (case new_config of None \<Rightarrow> [] | Some c \<Rightarrow> c))))"

definition read_config :: "env \<Rightarrow> error + config option" where
  "read_config env =
     (case config_file env of
        Some (file, ts, content) \<Rightarrow> Inr content
      | None \<Rightarrow> read_config_files (yaml_files env) None)"

subsection \<open>\<^verbatim>\<open>check_later_app_configs\<close>\<close>

text \<open>
  The dictionary \<^verbatim>\<open>later_files\<close>.  The branch for the deprecated configuration
  file returns a dictionary without the key \<^verbatim>\<open>deleted\<close> (here \<open>None\<close>).
\<close>

record later_files =
  latest :: timestamp
  files :: "path list"
  deleted :: "path list option"

text \<open>
  The walk over the documents: every path goes to the new listing, a path
  modified after \<^verbatim>\<open>last_latest\<close> goes to \<^verbatim>\<open>files\<close>, and \<^verbatim>\<open>latest\<close> becomes the
  greatest modification time seen.
\<close>

fun scan_yaml ::
  "(path \<times> timestamp \<times> document) list \<Rightarrow> timestamp \<Rightarrow>
   path list \<times> path list \<times> timestamp \<Rightarrow> path list \<times> path list \<times> timestamp"
where
  "scan_yaml [] last_latest acc = acc"
| "scan_yaml ((file, ts, doc) # rest) last_latest (listing, later, newest) =
     scan_yaml rest last_latest
       (listing @ [file],
        if ts > last_latest then later @ [file] else later,
        if ts > newest then ts else newest)"

definition check_later_app_configs ::
  "env \<Rightarrow> state \<Rightarrow> timestamp \<Rightarrow> later_files \<times> state"
where
  "check_later_app_configs env st last_latest =
     (case config_file env of
        Some (file, ts, content) \<Rightarrow> (\<lparr>latest = ts, files = [file], deleted = None\<rparr>, st)
      | None \<Rightarrow>
          (case scan_yaml (yaml_files env) last_latest ([], [], last_latest) of
             (listing, later, newest) \<Rightarrow>
               (let previous = (case app_config_files st of None \<Rightarrow> [] | Some fs \<Rightarrow> fs);
                    gone = filter (\<lambda>file. file \<notin> set listing) previous;
                    added = (if app_config_files st \<noteq> None
                             then filter (\<lambda>file. file \<notin> set previous) listing else [])
                in (\<lparr>latest = newest, files = later @ added, deleted = Some gone\<rparr>,
                    st\<lparr>app_config_files := Some listing\<rparr>))))"

subsection \<open>\<^verbatim>\<open>check_config\<close>\<close>

text \<open>
  The loop \<^verbatim>\<open>for name in self.app_config\<close>: an app whose body changed goes to
  both dictionaries; an app that is not in the new configuration is
  terminated at once by \<^verbatim>\<open>term_object\<close>.
\<close>

fun diff_existing ::
  "config \<Rightarrow> config \<Rightarrow> app_name list \<times> app_name list \<times> state \<Rightarrow>
   app_name list \<times> app_name list \<times> state"
where
  "diff_existing new_config [] acc = acc"
| "diff_existing new_config ((name, e) # rest) (terminate_apps, initialize_apps, st) =
     (case map_of new_config name of
        Some e' \<Rightarrow>
          if e \<noteq> e'
          then diff_existing new_config rest
                 (dict_add name terminate_apps, dict_add name initialize_apps, st)
          else diff_existing new_config rest (terminate_apps, initialize_apps, st)
      | None \<Rightarrow>
          diff_existing new_config rest (terminate_apps, initialize_apps, term_object name st))"

text \<open>
  The loop \<^verbatim>\<open>for name in new_config\<close>: a name that is new and has a class and a
  module goes to \<^verbatim>\<open>initialize_apps\<close>.
\<close>

fun diff_added :: "config \<Rightarrow> config \<Rightarrow> app_name list \<Rightarrow> error + app_name list" where
  "diff_added old_config [] initialize_apps = Inr initialize_apps"
| "diff_added old_config ((name, e) # rest) initialize_apps =
     (if name \<notin> fst ` set old_config
      then (case has_class_and_module e of
              Inl err \<Rightarrow> Inl err
            | Inr True \<Rightarrow> diff_added old_config rest (dict_add name initialize_apps)
            | Inr False \<Rightarrow> diff_added old_config rest initialize_apps)
      else diff_added old_config rest initialize_apps)"

text \<open>
  The end of \<^verbatim>\<open>check_config\<close>: threads are added when apps are pinned
  automatically and there are more apps than threads, and the plan is
  returned.
\<close>

definition finish_check_config ::
  "bool \<Rightarrow> env \<Rightarrow> state \<Rightarrow> app_name list \<Rightarrow> app_name list \<Rightarrow> nat \<Rightarrow> plan option \<times> state"
where
  "finish_check_config add_threads env st terminate_apps initialize_apps n =
     (Some \<lparr>init_apps = initialize_apps, term_apps = terminate_apps, total_apps = n\<rparr>,
      if add_threads \<and> auto_pin env \<and> n > threads env
      then st\<lparr>trace := trace st @ replicate (n - threads env) AddThread\<rparr>
      else st)"

text \<open>
  \<^verbatim>\<open>check_config\<close> returns the plan, or \<^verbatim>\<open>None\<close> when the new configuration is
  \<^verbatim>\<open>None\<close> and when an exception is raised: the \<^verbatim>\<open>except\<close> clause catches every
  exception, logs it and falls off the end of the function.  The state is the
  state at that point.  With the deprecated configuration file the subscript
  \<^verbatim>\<open>latest["deleted"]\<close> raises \<^verbatim>\<open>KeyError\<close> after the configuration was read.
\<close>

definition check_config :: "bool \<Rightarrow> env \<Rightarrow> state \<Rightarrow> plan option \<times> state" where
  "check_config add_threads env st =
     (case check_later_app_configs env st (app_config_file_modified st) of
        (later, st1) \<Rightarrow>
          (let st2 = st1\<lparr>app_config_file_modified := latest later\<rparr> in
           if files later \<noteq> [] \<or> deleted later \<noteq> Some []
           then (case read_config env of
                   Inl err \<Rightarrow> (None, st2)
                 | Inr None \<Rightarrow> (None, st2)
                 | Inr (Some new_config) \<Rightarrow>
                     (case deleted later of
                        None \<Rightarrow> (None, st2)
                      | Some gone \<Rightarrow>
                          (case diff_existing new_config (app_config st2) ([], [], st2) of
                             (terminate_apps, initialize_apps, st3) \<Rightarrow>
                               (case diff_added (app_config st3) new_config initialize_apps of
                                  Inl err \<Rightarrow> (None, st3)
                                | Inr initialize_apps' \<Rightarrow>
                                    finish_check_config add_threads env
                                      (st3\<lparr>app_config := new_config\<rparr>)
                                      terminate_apps initialize_apps' (length new_config)))))
           else finish_check_config add_threads env st2 [] [] (length (app_config st))))"

subsection \<open>Modules and the apps that use them\<close>

text \<open>
  \<^verbatim>\<open>get_module_from_path\<close>: \<^verbatim>\<open>os.path.basename\<close> keeps what follows the last
  slash; \<^verbatim>\<open>os.path.splitext\<close> cuts at the last dot unless only dots precede it.
\<close>

definition basename :: "path \<Rightarrow> string" where
  "basename p = rev (takeWhile (\<lambda>c. c \<noteq> CHR ''/'') (rev p))"

definition splitext_root :: "string \<Rightarrow> string" where
  "splitext_root name =
     (let leading = takeWhile (\<lambda>c. c = CHR ''.'') name;
          rest = dropWhile (\<lambda>c. c = CHR ''.'') name
      in if CHR ''.'' \<in> set rest
         then leading @ rev (tl (dropWhile (\<lambda>c. c \<noteq> CHR ''.'') (rev rest)))
         else name)"

definition get_module_from_path :: "path \<Rightarrow> string" where
  "get_module_from_path p = splitext_root (basename p)"

text \<open>The subscript \<^verbatim>\<open>self.app_config[app]["module"]\<close>.\<close>

fun module_of :: "entry \<Rightarrow> error + string" where
  "module_of (App a) = (case module a of None \<Rightarrow> Inl KeyError | Some m \<Rightarrow> Inr m)"
| "module_of (GlobalModules gl) = Inl TypeError"
| "module_of (Scalar n) = Inl TypeError"

text \<open>
  \<^verbatim>\<open>apps_per_module\<close> passes over the entry named \<^verbatim>\<open>global_modules\<close> before
  it takes the subscript.
\<close>

fun apps_per_module :: "config \<Rightarrow> string \<Rightarrow> error + app_name list" where
  "apps_per_module [] m = Inr []"
| "apps_per_module ((app, e) # rest) m =
     (if app \<noteq> ''global_modules''
      then (case module_of e of
              Inl err \<Rightarrow> Inl err
            | Inr m' \<Rightarrow>
                (case apps_per_module rest m of
                   Inl err \<Rightarrow> Inl err
                 | Inr apps \<Rightarrow> Inr (if m' = m then app # apps else apps)))
      else apps_per_module rest m)"

fun global_dependencies_of :: "entry \<Rightarrow> error + string list" where
  "global_dependencies_of (App a) =
     Inr (case global_dependencies a of None \<Rightarrow> [] | Some gms \<Rightarrow> gms)"
| "global_dependencies_of (GlobalModules gl) =
     (if ''global_dependencies'' \<in> set gl then Inl TypeError else Inr [])"
| "global_dependencies_of (Scalar n) = Inl TypeError"

fun apps_per_global_module :: "config \<Rightarrow> string \<Rightarrow> error + app_name list" where
  "apps_per_global_module [] m = Inr []"
| "apps_per_global_module ((app, e) # rest) m =
     (case global_dependencies_of e of
        Inl err \<Rightarrow> Inl err
      | Inr gms \<Rightarrow>
          (case apps_per_global_module rest m of
             Inl err \<Rightarrow> Inl err
           | Inr apps \<Rightarrow> Inr (map (\<lambda>gm. app) (filter (\<lambda>gm. gm = m) gms) @ apps)))"

text \<open>
  \<^verbatim>\<open>utils.single_or_list(self.app_config["global_modules"])\<close> when the key is
  there.  The helper returns a list as it is and wraps anything else in a
  list of one element; such an element is no string and equals no module
  name, so the list of names is empty for it.
\<close>

definition global_module_names :: "config \<Rightarrow> string list" where
  "global_module_names cfg =
     (case map_of cfg ''global_modules'' of Some (GlobalModules gl) \<Rightarrow> gl | _ \<Rightarrow> [])"

subsection \<open>Planning: the scan of the code modules\<close>

text \<open>
  The assignments \<^verbatim>\<open>apps["term"][app] = 1\<close> and \<^verbatim>\<open>apps["init"][app] = 1\<close> for
  the apps of a list.  \<^verbatim>\<open>apps\<close> is what \<open>check_config\<close> returned; the subscript
  of \<^verbatim>\<open>None\<close> raises \<^verbatim>\<open>TypeError\<close>.
\<close>

fun mark :: "bool \<Rightarrow> bool \<Rightarrow> app_name list \<Rightarrow> plan option \<Rightarrow> error + plan option" where
  "mark to_term to_init [] apps = Inr apps"
| "mark to_term to_init (app # rest) None = Inl TypeError"
| "mark to_term to_init (app # rest) (Some p) =
     mark to_term to_init rest
       (Some (p\<lparr>term_apps := (if to_term then dict_add app (term_apps p) else term_apps p),
                init_apps := (if to_init then dict_add app (init_apps p) else init_apps p)\<rparr>))"

text \<open>
  The loop \<^verbatim>\<open>for file in found_files\<close>: a file that is new or was modified
  after the recorded time goes to \<^verbatim>\<open>modules\<close> (with the flag \<^verbatim>\<open>reload\<close> for a
  known file) and its time is recorded; \<^verbatim>\<open>__init__.py\<close> of the app directory
  and unreadable files are skipped.
\<close>

fun scan_modules ::
  "path \<Rightarrow> (path \<times> timestamp option) list \<Rightarrow>
   (path \<times> bool) list \<times> (path \<times> timestamp) list \<Rightarrow>
   (path \<times> bool) list \<times> (path \<times> timestamp) list"
where
  "scan_modules init_file [] acc = acc"
| "scan_modules init_file ((file, mtime) # rest) (mods, monitored) =
     (if file = init_file then scan_modules init_file rest (mods, monitored)
      else (case mtime of
              None \<Rightarrow> scan_modules init_file rest (mods, monitored)
            | Some modified \<Rightarrow>
                (case map_of monitored file of
                   Some recorded \<Rightarrow>
                     if recorded < modified
                     then scan_modules init_file rest
                            (mods @ [(file, True)], AList.update file modified monitored)
                     else scan_modules init_file rest (mods, monitored)
                 | None \<Rightarrow>
                     scan_modules init_file rest
                       (mods @ [(file, False)], AList.update file modified monitored))))"

definition deleted_modules ::
  "bool \<Rightarrow> (path \<times> timestamp option) list \<Rightarrow> (path \<times> timestamp) list \<Rightarrow> path list"
where
  "deleted_modules exit found monitored =
     map fst (filter (\<lambda>(file, ts). file \<notin> fst ` set found \<or> exit) monitored)"

text \<open>
  The loop \<^verbatim>\<open>for file in deleted_modules\<close>.  A result is a pair: the value or
  the exception, and the state at that point.
\<close>

fun term_deleted ::
  "path list \<Rightarrow> plan option \<Rightarrow> state \<Rightarrow> (error + plan option) \<times> state" where
  "term_deleted [] apps st = (Inr apps, st)"
| "term_deleted (file # rest) apps st =
     (let st' = st\<lparr>monitored_files := AList.delete file (monitored_files st)\<rparr> in
      case apps_per_module (app_config st') (get_module_from_path file) of
        Inl err \<Rightarrow> (Inl err, st')
      | Inr names \<Rightarrow>
          (case mark True False names apps of
             Inl err \<Rightarrow> (Inl err, st')
           | Inr apps' \<Rightarrow> term_deleted rest apps' st'))"

text \<open>
  The loop \<^verbatim>\<open>for module in modules\<close>: the apps of the module, and for a
  global module the apps that name it in \<^verbatim>\<open>global_dependencies\<close>.
\<close>

fun mark_global ::
  "config \<Rightarrow> string \<Rightarrow> bool \<Rightarrow> string list \<Rightarrow> plan option \<Rightarrow> error + plan option" where
  "mark_global cfg m reload [] apps = Inr apps"
| "mark_global cfg m reload (gm # rest) apps =
     (if gm = m
      then (case apps_per_global_module cfg gm of
              Inl err \<Rightarrow> Inl err
            | Inr names \<Rightarrow>
                (case mark reload True names apps of
                   Inl err \<Rightarrow> Inl err
                 | Inr apps' \<Rightarrow> mark_global cfg m reload rest apps'))
      else mark_global cfg m reload rest apps)"

fun mark_modules :: "config \<Rightarrow> (path \<times> bool) list \<Rightarrow> plan option \<Rightarrow> error + plan option" where
  "mark_modules cfg [] apps = Inr apps"
| "mark_modules cfg ((file, reload) # rest) apps =
     (case apps_per_module cfg (get_module_from_path file) of
        Inl err \<Rightarrow> Inl err
      | Inr names \<Rightarrow>
          (case mark reload True names apps of
             Inl err \<Rightarrow> Inl err
           | Inr apps1 \<Rightarrow>
               (case mark_global cfg (get_module_from_path file) reload
                       (global_module_names cfg) apps1 of
                  Inl err \<Rightarrow> Inl err
                | Inr apps2 \<Rightarrow> mark_modules cfg rest apps2)))"

text \<open>The restart of a plugin.\<close>

fun plugin_listed :: "string \<Rightarrow> string list \<Rightarrow> bool" where
  "plugin_listed restarted [] = False"
| "plugin_listed restarted (this_plugin # rest) =
     (if this_plugin = restarted then True
      else if restarted = ''__ALL__'' then True
      else plugin_listed restarted rest)"

fun plugin_reload :: "string \<Rightarrow> entry \<Rightarrow> error + bool" where
  "plugin_reload restarted (App a) =
     Inr (case plugin a of None \<Rightarrow> True | Some ps \<Rightarrow> plugin_listed restarted ps)"
| "plugin_reload restarted (GlobalModules gl) =
     (if ''plugin'' \<in> set gl then Inl TypeError else Inr True)"
| "plugin_reload restarted (Scalar n) = Inl TypeError"

fun mark_plugin :: "string \<Rightarrow> config \<Rightarrow> plan option \<Rightarrow> error + plan option" where
  "mark_plugin restarted [] apps = Inr apps"
| "mark_plugin restarted ((app, e) # rest) apps =
     (if app = ''global_modules'' then mark_plugin restarted rest apps
      else (case plugin_reload restarted e of
              Inl err \<Rightarrow> Inl err
            | Inr True \<Rightarrow>
                (case mark True True [app] apps of
                   Inl err \<Rightarrow> Inl err
                 | Inr apps' \<Rightarrow> mark_plugin restarted rest apps')
            | Inr False \<Rightarrow> mark_plugin restarted rest apps))"

text \<open>
  The first part of \<^verbatim>\<open>check_app_updates(plugin, exit)\<close>, up to the comment
  \<^verbatim>\<open># Terminate apps\<close>: the plan (or \<^verbatim>\<open>None\<close>) and the list \<^verbatim>\<open>modules\<close>.
\<close>

definition plan_updates ::
  "string option \<Rightarrow> bool \<Rightarrow> env \<Rightarrow> state \<Rightarrow>
   (error + plan option \<times> (path \<times> bool) list) \<times> state"
where
  "plan_updates restarted exit env st =
     (case check_config True env st of (apps, st1) \<Rightarrow>
      (case scan_modules (init_py env) (py_files env) ([], monitored_files st1) of
         (mods, monitored) \<Rightarrow>
           (case term_deleted (deleted_modules exit (py_files env) monitored) apps
                   (st1\<lparr>monitored_files := monitored\<rparr>) of
              (Inl err, st2) \<Rightarrow> (Inl err, st2)
            | (Inr apps1, st2) \<Rightarrow>
                (case mark_modules (app_config st2) mods apps1 of
                   Inl err \<Rightarrow> (Inl err, st2)
                 | Inr apps2 \<Rightarrow>
                     (case (case restarted of
                              None \<Rightarrow> Inr apps2
                            | Some pl \<Rightarrow> mark_plugin pl (app_config st2) apps2) of
                        Inl err \<Rightarrow> (Inl err, st2)
                      | Inr apps3 \<Rightarrow> (Inr (apps3, mods), st2))))))"

subsection \<open>The terminate phase\<close>

text \<open>
  \<^verbatim>\<open>sorted(prio_apps, key=prio_apps.get)\<close> and its variant with
  \<^verbatim>\<open>reverse=True\<close>: Python's sort is stable in both directions, and so is
  \<open>sort_key\<close>.
\<close>

definition sorted_apps :: "bool \<Rightarrow> (app_name \<times> rat) list \<Rightarrow> app_name list" where
  "sorted_apps reverse prio_apps =
     map fst (sort_key (\<lambda>(app, prio). if reverse then - prio else prio) prio_apps)"

definition terminate_phase :: "plan option \<Rightarrow> state \<Rightarrow> (error + unit) \<times> state" where
  "terminate_phase apps st =
     (case apps of
        None \<Rightarrow> (Inr (), st)
      | Some p \<Rightarrow>
          if term_apps p \<noteq> []
          then (case get_app_deps_and_prios (app_config st) (term_apps p) of
                  Inl err \<Rightarrow> (Inl err, st)
                | Inr prio_apps \<Rightarrow> (Inr (), fold term_object (sorted_apps True prio_apps) st))
          else (Inr (), st))"

subsection \<open>\<^verbatim>\<open>read_app\<close> and the load phase\<close>

text \<open>The keys of an app's body, for the test \<^verbatim>\<open>module_name in body\<close>.\<close>

definition app_keys :: "app_args \<Rightarrow> string set" where
  "app_keys a =
     (if module a \<noteq> None then {''module''} else {}) \<union>
     (if class_name a \<noteq> None then {''class''} else {}) \<union>
     (if dependencies a \<noteq> None then {''dependencies''} else {}) \<union>
     (if global_dependencies a \<noteq> None then {''global_dependencies''} else {}) \<union>
     (if priority a \<noteq> None then {''priority''} else {}) \<union>
     (if disable a \<noteq> None then {''disable''} else {}) \<union>
     (if plugin a \<noteq> None then {''plugin''} else {}) \<union>
     (if pin_thread a \<noteq> None then {''pin_thread''} else {}) \<union>
     dom (other_args a)"

text \<open>
  \<^verbatim>\<open>get_app_from_file\<close>: the first app whose body has the key \<^verbatim>\<open>module\<close> with the
  module of the file as its value.
\<close>

fun find_app_of_module :: "string \<Rightarrow> config \<Rightarrow> error + app_name option" where
  "find_app_of_module m [] = Inr None"
| "find_app_of_module m ((app, App a) # rest) =
     (if module a = Some m then Inr (Some app) else find_app_of_module m rest)"
| "find_app_of_module m ((app, GlobalModules gl) # rest) =
     (if ''module'' \<in> set gl then Inl TypeError else find_app_of_module m rest)"
| "find_app_of_module m ((app, Scalar n) # rest) = Inl TypeError"

definition get_app_from_file :: "config \<Rightarrow> path \<Rightarrow> error + app_name option" where
  "get_app_from_file cfg file = find_app_of_module (get_module_from_path file) cfg"

definition is_global_module :: "config \<Rightarrow> string \<Rightarrow> error + bool" where
  "is_global_module cfg module_name =
     (case map_of cfg ''global_modules'' of
        None \<Rightarrow> Inr False
      | Some (GlobalModules gl) \<Rightarrow> Inr (module_name \<in> set gl)
      | Some (App a) \<Rightarrow> Inr (module_name \<in> app_keys a)
      | Some (Scalar n) \<Rightarrow> Inl TypeError)"

definition import_module :: "env \<Rightarrow> string \<Rightarrow> state \<Rightarrow> (error + unit) \<times> state" where
  "import_module env module_name st =
     (if loads env module_name
      then (Inr (), st\<lparr>modules := (if module_name \<in> set (modules st) then modules st
                                      else modules st @ [module_name])\<rparr>)
      else (Inl ImportError, st))"

text \<open>The branch of \<^verbatim>\<open>read_app\<close> for \<^verbatim>\<open>reload=False\<close>.\<close>

definition load_app :: "env \<Rightarrow> path \<Rightarrow> state \<Rightarrow> (error + unit) \<times> state" where
  "load_app env file st =
     (let module_name = splitext_root (basename file) in
      case get_app_from_file (app_config st) file of
        Inl err \<Rightarrow> (Inl err, st)
      | Inr (Some app) \<Rightarrow>
          if module_name \<notin> set (modules st) then import_module env module_name st
          else if loads env module_name then (Inr (), st) else (Inl ImportError, st)
      | Inr None \<Rightarrow>
          (case is_global_module (app_config st) module_name of
             Inl err \<Rightarrow> (Inl err, st)
           | Inr True \<Rightarrow> import_module env module_name st
           | Inr False \<Rightarrow> (Inr (), st)))"

text \<open>
  \<^verbatim>\<open>read_app(file, reload)\<close>.  A reload of a module that is not in
  \<^verbatim>\<open>self.modules\<close> raises \<^verbatim>\<open>KeyError\<close>, which is handled by loading the module
  afresh under its name without the extension, unless the file name is a key
  of \<^verbatim>\<open>sys.modules\<close>.
\<close>

definition read_app :: "env \<Rightarrow> path \<Rightarrow> bool \<Rightarrow> state \<Rightarrow> (error + unit) \<times> state" where
  "read_app env file reload st =
     (let st0 = st\<lparr>trace := trace st @ [ReadApp file reload]\<rparr>;
          name = basename file;
          module_name = splitext_root name
      in if reload
         then (if module_name \<in> set (modules st0)
               then (if loads env module_name then (Inr (), st0) else (Inl ImportError, st0))
               else if \<not> in_sys_modules env name then load_app env (splitext_root name) st0
               else (Inl KeyError, st0))
         else load_app env file st0)"

text \<open>
  The \<^verbatim>\<open>except\<close> clause of the load phase: the apps of the module that failed
  are deleted from \<^verbatim>\<open>apps["init"]\<close>, each with a warning.  The loop takes the
  subscript \<^verbatim>\<open>self.app_config[app]["module"]\<close> of every entry.
\<close>

fun remove_failed ::
  "string \<Rightarrow> config \<Rightarrow> plan option \<Rightarrow> state \<Rightarrow> (error + plan option) \<times> state" where
  "remove_failed m [] apps st = (Inr apps, st)"
| "remove_failed m ((app, e) # rest) apps st =
     (case module_of e of
        Inl err \<Rightarrow> (Inl err, st)
      | Inr m' \<Rightarrow>
          if m' = m
          then (case apps of
                  None \<Rightarrow> (Inl TypeError, st)
                | Some p \<Rightarrow>
                    if init_apps p \<noteq> [] \<and> app \<in> set (init_apps p)
                    then remove_failed m rest
                           (Some (p\<lparr>init_apps := removeAll app (init_apps p)\<rparr>))
                           (st\<lparr>trace := trace st @ [RemovedFromInit app]\<rparr>)
                    else remove_failed m rest apps st)
          else remove_failed m rest apps st)"

fun load_modules ::
  "env \<Rightarrow> (path \<times> bool) list \<Rightarrow> plan option \<Rightarrow> state \<Rightarrow> (error + plan option) \<times> state"
where
  "load_modules env [] apps st = (Inr apps, st)"
| "load_modules env ((file, reload) # rest) apps st =
     (case read_app env file reload st of
        (Inr u, st1) \<Rightarrow> load_modules env rest apps st1
      | (Inl err, st1) \<Rightarrow>
          (case remove_failed (get_module_from_path file) (app_config st1) apps st1 of
             (Inl err', st2) \<Rightarrow> (Inl err', st2)
           | (Inr apps', st2) \<Rightarrow> load_modules env rest apps' st2))"

subsection \<open>The initialize phase\<close>

text \<open>The test \<^verbatim>\<open>"disable" in body and body["disable"] is True\<close>.\<close>

fun is_disabled :: "entry \<Rightarrow> error + bool" where
  "is_disabled (App a) = Inr (disable a = Some True)"
| "is_disabled (GlobalModules gl) = (if ''disable'' \<in> set gl then Inl TypeError else Inr False)"
| "is_disabled (Scalar n) = Inl TypeError"

text \<open>
  \<^verbatim>\<open>init_object(name)\<close>: the app is registered when its module is a monitored
  file, its thread pin is in range and the factory yields an instance.
\<close>

definition get_file_from_module :: "state \<Rightarrow> string \<Rightarrow> path option" where
  "get_file_from_module st m =
     find (\<lambda>file. get_module_from_path file = m) (map fst (monitored_files st))"

definition init_object :: "env \<Rightarrow> app_name \<Rightarrow> state \<Rightarrow> (error + unit) \<times> state" where
  "init_object env name st =
     (let st0 = st\<lparr>trace := trace st @ [InitObject name]\<rparr> in
      case map_of (app_config st0) name of
        None \<Rightarrow> (Inl KeyError, st0)
      | Some (GlobalModules gl) \<Rightarrow> (Inl TypeError, st0)
      | Some (Scalar n) \<Rightarrow> (Inl TypeError, st0)
      | Some (App a) \<Rightarrow>
          (case (class_name a, module a) of
             (Some c, Some m) \<Rightarrow>
               if get_file_from_module st0 m \<noteq> None
               then (let pin = (case pin_thread a of None \<Rightarrow> - 1 | Some n \<Rightarrow> n) in
                     if pin_thread a \<noteq> None \<and> (pin < 0 \<or> pin \<ge> int (threads env))
                     then (Inr (), st0)
                     else (case instantiate env name of
                             ConstructorRaises \<Rightarrow> (Inl ImportError, st0)
                           | ClassNotFound \<Rightarrow> (Inr (), st0)
                           | Instance \<Rightarrow>
                               (Inr (),
                                st0\<lparr>objects :=
                                  AList.update name
                                    \<lparr>pin_app = should_pin env name, obj_pin_thread = pin\<rparr>
                                    (objects st0)\<rparr>)))
               else (Inr (), st0)
           | _ \<Rightarrow> (Inl KeyError, st0)))"

text \<open>
  The first pass over the sorted apps: every exception of the body is caught
  and logged.
\<close>

fun construct_apps :: "env \<Rightarrow> app_name list \<Rightarrow> state \<Rightarrow> state" where
  "construct_apps env [] st = st"
| "construct_apps env (app # rest) st =
     (case map_of (app_config st) app of
        None \<Rightarrow> construct_apps env rest st
      | Some e \<Rightarrow>
          (case is_disabled e of
             Inl err \<Rightarrow> construct_apps env rest st
           | Inr True \<Rightarrow> construct_apps env rest st
           | Inr False \<Rightarrow> construct_apps env rest (snd (init_object env app st))))"

text \<open>
  The second pass: \<^verbatim>\<open>initialize_app\<close> catches the exceptions of the hook, but
  the test for \<^verbatim>\<open>disable\<close> is outside any \<^verbatim>\<open>try\<close>.
\<close>

fun initialize_apps :: "app_name list \<Rightarrow> state \<Rightarrow> (error + unit) \<times> state" where
  "initialize_apps [] st = (Inr (), st)"
| "initialize_apps (app # rest) st =
     (case map_of (app_config st) app of
        None \<Rightarrow> (Inl KeyError, st)
      | Some e \<Rightarrow>
          (case is_disabled e of
             Inl err \<Rightarrow> (Inl err, st)
           | Inr True \<Rightarrow> initialize_apps rest st
           | Inr False \<Rightarrow> initialize_apps rest (st\<lparr>trace := trace st @ [InitializeApp app]\<rparr>)))"

definition init_phase :: "env \<Rightarrow> plan option \<Rightarrow> state \<Rightarrow> (error + unit) \<times> state" where
  "init_phase env apps st =
     (case apps of
        None \<Rightarrow> (Inr (), st)
      | Some p \<Rightarrow>
          if init_apps p \<noteq> []
          then (case get_app_deps_and_prios (app_config st) (init_apps p) of
                  Inl err \<Rightarrow> (Inl err, st)
                | Inr prio_apps \<Rightarrow>
                    (let order = sorted_apps False prio_apps;
                         st1 = construct_apps env order st;
                         st2 = st1\<lparr>trace := trace st1 @ [CalculatePinThreads]\<rparr>
                     in initialize_apps order st2))
          else (Inr (), st))"

subsection \<open>\<^verbatim>\<open>check_app_updates\<close>\<close>

definition check_app_updates ::
  "string option \<Rightarrow> bool \<Rightarrow> env \<Rightarrow> state \<Rightarrow> (error + unit) \<times> state" where
  "check_app_updates restarted exit env st =
     (if \<not> apps_enabled env then (Inr (), st)
      else (case plan_updates restarted exit env st of
              (Inl err, st1) \<Rightarrow> (Inl err, st1)
            | (Inr (apps, mods), st1) \<Rightarrow>
                (case terminate_phase apps st1 of
                   (Inl err, st2) \<Rightarrow> (Inl err, st2)
                 | (Inr u, st2) \<Rightarrow>
                     (case load_modules env mods apps st2 of
                        (Inl err, st3) \<Rightarrow> (Inl err, st3)
                      | (Inr apps', st3) \<Rightarrow> init_phase env apps' st3))))"

section \<open>Verification\<close>

subsection \<open>The dependency relation and the invariants of the sort\<close>

text \<open>
  \<open>dep_rel source\<close> is the set of edges ``\<open>name\<close> depends on \<open>dep\<close>'' of a
  dependency specification.  \<open>deps_first\<close> says that a list of names has every
  name after all the dependencies declared for it.  \<open>pass_inv\<close> is the invariant
  of the \<^verbatim>\<open>for entry in pending\<close> loop and \<open>loop_inv\<close> the invariant of the
  \<^verbatim>\<open>while pending\<close> loop: \<open>Y0\<close> and \<open>E0\<close> are \<^verbatim>\<open>yielded\<close> and \<^verbatim>\<open>emitted\<close> at the
  start of the pass.
\<close>

definition dep_rel :: "(app_name \<times> app_name list) list \<Rightarrow> (app_name \<times> app_name) set" where
  "dep_rel source = set (concat (map (\<lambda>(name, deps). map (Pair name) deps) source))"

definition deps_first :: "(app_name \<times> app_name list) list \<Rightarrow> app_name list \<Rightarrow> bool" where
  "deps_first src ys \<longleftrightarrow>
     (\<forall>pre n post ds. ys = pre @ n # post \<longrightarrow> map_of src n = Some ds \<longrightarrow> set ds \<subseteq> set pre)"

definition pass_inv ::
  "(app_name \<times> app_name list) list \<Rightarrow> app_name list \<Rightarrow> app_name list \<Rightarrow>
   (app_name \<times> app_name set) list \<Rightarrow>
   app_name list \<Rightarrow> (app_name \<times> app_name set) list \<Rightarrow> app_name list \<Rightarrow> bool"
where
  "pass_inv src Y0 E0 rest em np ne \<longleftrightarrow>
     em = E0 @ ne \<and>
     distinct (map fst rest @ map fst np @ Y0 @ ne) \<and>
     set (map fst rest) \<union> set (map fst np) \<union> set Y0 \<union> set ne = fst ` set src \<and>
     (\<forall>(n, D) \<in> set rest. \<exists>ds. map_of src n = Some ds \<and> D - set E0 = set ds - set Y0) \<and>
     (\<forall>(n, D) \<in> set np. D \<noteq> {} \<and>
        (\<exists>ds. map_of src n = Some ds \<and> D \<subseteq> set ds - set Y0 \<and> set ds - set Y0 - set ne \<subseteq> D)) \<and>
     deps_first src (Y0 @ ne)"

definition loop_inv ::
  "(app_name \<times> app_name list) list \<Rightarrow> (app_name \<times> app_name set) list \<Rightarrow>
   app_name list \<Rightarrow> app_name list \<Rightarrow> bool"
where
  "loop_inv src P E Y \<longleftrightarrow>
     distinct (map fst P @ Y) \<and>
     set (map fst P) \<union> set Y = fst ` set src \<and>
     (\<forall>(n, D) \<in> set P. \<exists>ds. map_of src n = Some ds \<and> D - set E = set ds - set Y) \<and>
     deps_first src Y"

lemma mem_dep_rel:
  "(n, d) \<in> dep_rel source \<longleftrightarrow> (\<exists>ds. (n, ds) \<in> set source \<and> d \<in> set ds)"
  by (auto simp: dep_rel_def)

lemma deps_first_Nil: "deps_first src []"
  by (simp add: deps_first_def)

lemma deps_first_snoc:
  assumes "deps_first src ys" and "\<And>ds. map_of src n = Some ds \<Longrightarrow> set ds \<subseteq> set ys"
  shows "deps_first src (ys @ [n])"
  unfolding deps_first_def
proof (intro allI impI)
  fix pre m post ds
  assume split: "ys @ [n] = pre @ m # post" and m: "map_of src m = Some ds"
  show "set ds \<subseteq> set pre"
  proof (cases post rule: rev_cases)
    case Nil
    with split have "pre = ys" "m = n" by auto
    with assms(2) m show ?thesis by simp
  next
    case (snoc post' z)
    with split have "ys = pre @ m # post'" by auto
    with assms(1) m show ?thesis unfolding deps_first_def by blast
  qed
qed

lemma pass_inv_head:
  "pass_inv src Y0 E0 ((n, D) # rest) em np ne \<Longrightarrow>
   \<exists>ds. map_of src n = Some ds \<and> D - set E0 = set ds - set Y0"
  by (simp add: pass_inv_def)

lemma pass_inv_em: "pass_inv src Y0 E0 rest em np ne \<Longrightarrow> em = E0 @ ne"
  by (simp add: pass_inv_def)

lemma pass_inv_deps_first: "pass_inv src Y0 E0 rest em np ne \<Longrightarrow> deps_first src (Y0 @ ne)"
  by (simp add: pass_inv_def)

lemma pass_inv_np:
  "pass_inv src Y0 E0 rest em np ne \<Longrightarrow> (m, D) \<in> set np \<Longrightarrow>
   D \<noteq> {} \<and> (\<exists>ds. map_of src m = Some ds \<and> D \<subseteq> set ds - set Y0 \<and> set ds - set Y0 - set ne \<subseteq> D)"
  unfolding pass_inv_def by fast

lemma pass_inv_rest:
  "pass_inv src Y0 E0 (p # rest) em np ne \<Longrightarrow>
   \<forall>(n, D) \<in> set rest. \<exists>ds. map_of src n = Some ds \<and> D - set E0 = set ds - set Y0"
  by (simp add: pass_inv_def)

lemma pass_inv_distinct:
  "pass_inv src Y0 E0 rest em np ne \<Longrightarrow> distinct (map fst rest @ map fst np @ Y0 @ ne)"
  by (simp add: pass_inv_def)

lemma pass_inv_names:
  "pass_inv src Y0 E0 rest em np ne \<Longrightarrow>
   set (map fst rest) \<union> set (map fst np) \<union> set Y0 \<union> set ne = fst ` set src"
  by (simp add: pass_inv_def)

lemma pass_inv_emit:
  assumes inv: "pass_inv src Y0 E0 ((n, D) # rest) em np ne" and emp: "D - set em = {}"
  shows "pass_inv src Y0 E0 rest (em @ [n]) np (ne @ [n])"
proof -
  from pass_inv_head [OF inv]
  obtain ds where ds: "map_of src n = Some ds" "D - set E0 = set ds - set Y0" by blast
  have em: "em = E0 @ ne" by (rule pass_inv_em [OF inv])
  with emp ds(2) have sub: "set ds \<subseteq> set (Y0 @ ne)" by auto
  have "deps_first src ((Y0 @ ne) @ [n])"
  proof (rule deps_first_snoc [OF pass_inv_deps_first [OF inv]])
    fix ds' assume "map_of src n = Some ds'"
    with ds(1) sub show "set ds' \<subseteq> set (Y0 @ ne)" by simp
  qed
  then have c6: "deps_first src (Y0 @ ne @ [n])" by simp
  have c1: "em @ [n] = E0 @ ne @ [n]" using em by simp
  have c2: "distinct (map fst rest @ map fst np @ Y0 @ ne @ [n])"
    using pass_inv_distinct [OF inv] by auto
  have c3: "set (map fst rest) \<union> set (map fst np) \<union> set Y0 \<union> set (ne @ [n]) = fst ` set src"
    using pass_inv_names [OF inv] by auto
  note c4 = pass_inv_rest [OF inv]
  have c5: "\<forall>(m, D') \<in> set np. D' \<noteq> {} \<and>
        (\<exists>ds. map_of src m = Some ds \<and> D' \<subseteq> set ds - set Y0 \<and> set ds - set Y0 - set (ne @ [n]) \<subseteq> D')"
  proof (intro ballI, clarify)
    fix m D' assume "(m, D') \<in> set np"
    from pass_inv_np [OF inv this]
    obtain ds' where "D' \<noteq> {}" "map_of src m = Some ds'" "D' \<subseteq> set ds' - set Y0"
      "set ds' - set Y0 - set ne \<subseteq> D'" by blast
    then show "D' \<noteq> {} \<and> (\<exists>ds. map_of src m = Some ds \<and> D' \<subseteq> set ds - set Y0 \<and> set ds - set Y0 - set (ne @ [n]) \<subseteq> D')"
      by auto
  qed
  from c1 c2 c3 c4 c5 c6 show ?thesis unfolding pass_inv_def by simp
qed

lemma pass_inv_keep:
  assumes inv: "pass_inv src Y0 E0 ((n, D) # rest) em np ne" and nemp: "D - set em \<noteq> {}"
  shows "pass_inv src Y0 E0 rest em (np @ [(n, D - set em)]) ne"
proof -
  from pass_inv_head [OF inv]
  obtain ds where ds: "map_of src n = Some ds" "D - set E0 = set ds - set Y0" by blast
  have em: "em = E0 @ ne" by (rule pass_inv_em [OF inv])
  have eq: "D - set em = set ds - set Y0 - set ne" using em ds(2) by auto
  have c2: "distinct (map fst rest @ map fst (np @ [(n, D - set em)]) @ Y0 @ ne)"
    using pass_inv_distinct [OF inv] by auto
  have c3: "set (map fst rest) \<union> set (map fst (np @ [(n, D - set em)])) \<union> set Y0 \<union> set ne = fst ` set src"
    using pass_inv_names [OF inv] by auto
  note c4 = pass_inv_rest [OF inv]
  have c5: "\<forall>(m, D') \<in> set (np @ [(n, D - set em)]). D' \<noteq> {} \<and>
        (\<exists>ds. map_of src m = Some ds \<and> D' \<subseteq> set ds - set Y0 \<and> set ds - set Y0 - set ne \<subseteq> D')"
  proof (intro ballI, clarify)
    fix m D' assume "(m, D') \<in> set (np @ [(n, D - set em)])"
    then consider "(m, D') \<in> set np" | "m = n" "D' = D - set em" by auto
    then show "D' \<noteq> {} \<and> (\<exists>ds. map_of src m = Some ds \<and> D' \<subseteq> set ds - set Y0 \<and> set ds - set Y0 - set ne \<subseteq> D')"
    proof cases
      case 1
      from pass_inv_np [OF inv this] show ?thesis .
    next
      case 2
      have "D' \<noteq> {}" using 2 nemp by simp
      moreover have "D' \<subseteq> set ds - set Y0" "set ds - set Y0 - set ne \<subseteq> D'"
        using 2 eq by auto
      ultimately show ?thesis using ds(1) 2(1) by blast
    qed
  qed
  note c6 = pass_inv_deps_first [OF inv]
  from em c2 c3 c4 c5 c6 show ?thesis unfolding pass_inv_def by simp
qed

lemma scan_pending_inv:
  "pass_inv src Y0 E0 rest em np ne \<Longrightarrow> scan_pending rest (em, np, ne) = (em', np', ne') \<Longrightarrow>
   pass_inv src Y0 E0 [] em' np' ne'"
proof (induction rest arbitrary: em np ne)
  case Nil
  then show ?case by simp
next
  case (Cons p rest)
  obtain n D where p: "p = (n, D)" by (cases p)
  show ?case
  proof (cases "D - set em = {}")
    case True
    from Cons.prems(1) have inv': "pass_inv src Y0 E0 rest (em @ [n]) np (ne @ [n])"
      unfolding p by (rule pass_inv_emit) (rule True)
    from Cons.prems(2) p True
    have "scan_pending rest (em @ [n], np, ne @ [n]) = (em', np', ne')" by (simp add: Let_def)
    from Cons.IH [OF inv' this] show ?thesis .
  next
    case False
    from Cons.prems(1) have inv': "pass_inv src Y0 E0 rest em (np @ [(n, D - set em)]) ne"
      unfolding p by (rule pass_inv_keep) (rule False)
    from Cons.prems(2) p False
    have "scan_pending rest (em, np @ [(n, D - set em)], ne) = (em', np', ne')" by (simp add: Let_def)
    from Cons.IH [OF inv' this] show ?thesis .
  qed
qed

lemma loop_inv_start:
  assumes "loop_inv src P E Y"
  shows "pass_inv src Y E P E [] []"
  using assms unfolding loop_inv_def pass_inv_def by simp

lemma loop_inv_next:
  assumes inv: "pass_inv src Y E [] em np ne"
  shows "loop_inv src np ne (Y @ ne)"
proof -
  have c1: "distinct (map fst np @ Y @ ne)" using pass_inv_distinct [OF inv] by simp
  have c2: "set (map fst np) \<union> set (Y @ ne) = fst ` set src"
    using pass_inv_names [OF inv] by auto
  have c3: "\<forall>(n, D) \<in> set np. \<exists>ds. map_of src n = Some ds \<and> D - set ne = set ds - set (Y @ ne)"
  proof (intro ballI, clarify)
    fix n D assume "(n, D) \<in> set np"
    from pass_inv_np [OF inv this]
    obtain ds where ds: "map_of src n = Some ds" "D \<subseteq> set ds - set Y" "set ds - set Y - set ne \<subseteq> D"
      by blast
    from ds(2,3) have "D - set ne = set ds - set (Y @ ne)" by auto
    with ds(1) show "\<exists>ds. map_of src n = Some ds \<and> D - set ne = set ds - set (Y @ ne)" by blast
  qed
  note c4 = pass_inv_deps_first [OF inv]
  from c1 c2 c3 c4 show ?thesis unfolding loop_inv_def by simp
qed

lemma loop_inv_stuck:
  assumes linv: "loop_inv src P E Y" and "P \<noteq> []"
    and inv: "pass_inv src Y E [] em np []"
  shows "(\<exists>n. n \<in> fst ` set src \<and> n \<notin> set Y) \<and>
         (\<forall>n ds. n \<notin> set Y \<longrightarrow> map_of src n = Some ds \<longrightarrow> \<not> set ds \<subseteq> set Y)"
proof
  from \<open>P \<noteq> []\<close> obtain n D where "(n, D) \<in> set P" by (cases P) auto
  then have "n \<in> set (map fst P)" by force
  moreover from linv have "distinct (map fst P @ Y)" "set (map fst P) \<union> set Y = fst ` set src"
    unfolding loop_inv_def by simp_all
  ultimately have "n \<in> fst ` set src \<and> n \<notin> set Y" by auto
  then show "\<exists>n. n \<in> fst ` set src \<and> n \<notin> set Y" ..
next
  show "\<forall>n ds. n \<notin> set Y \<longrightarrow> map_of src n = Some ds \<longrightarrow> \<not> set ds \<subseteq> set Y"
  proof (intro allI impI)
    fix n ds assume nY: "n \<notin> set Y" and m: "map_of src n = Some ds"
    from map_of_SomeD [OF m] have "n \<in> fst ` set src" by force
    with pass_inv_names [OF inv] nY have "n \<in> set (map fst np)" by auto
    then obtain D where "(n, D) \<in> set np" by auto
    from pass_inv_np [OF inv this] m have "D \<noteq> {}" "D \<subseteq> set ds - set Y" by auto
    then show "\<not> set ds \<subseteq> set Y" by auto
  qed
qed

lemma topological_sort_loop_correct:
  "loop_inv src P E Y \<Longrightarrow> topological_sort_loop P E Y = (ys, err) \<Longrightarrow>
   distinct ys \<and> deps_first src ys \<and> set ys \<subseteq> fst ` set src \<and>
   (err = None \<longrightarrow> set ys = fst ` set src) \<and>
   (err \<noteq> None \<longrightarrow> err = Some ValueError \<and> (\<exists>n. n \<in> fst ` set src \<and> n \<notin> set ys) \<and>
      (\<forall>n ds. n \<notin> set ys \<longrightarrow> map_of src n = Some ds \<longrightarrow> \<not> set ds \<subseteq> set ys))"
proof (induction P E Y rule: topological_sort_loop.induct)
  case (1 pending emitted yielded)
  note linv = "1.prems"(1) and res = "1.prems"(2)
  show ?case
  proof (cases "pending = []")
    case True
    with res have "ys = yielded" "err = None" by (simp_all add: topological_sort_loop.simps)
    with linv True show ?thesis unfolding loop_inv_def by simp
  next
    case False
    obtain em np ne where sc: "scan_pending pending (emitted, [], []) = (em, np, ne)"
      by (cases "scan_pending pending (emitted, [], [])") auto
    have pinv: "pass_inv src yielded emitted [] em np ne"
      by (rule scan_pending_inv [OF loop_inv_start [OF linv] sc])
    show ?thesis
    proof (cases "ne = []")
      case True
      with res False sc have r: "ys = yielded" "err = Some ValueError"
        by (simp_all add: topological_sort_loop.simps)
      from pinv True have "pass_inv src yielded emitted [] em np []" by simp
      from loop_inv_stuck [OF linv False this] r linv show ?thesis
        unfolding loop_inv_def by auto
    next
      case ne: False
      with res False sc have r: "topological_sort_loop np ne (yielded @ ne) = (ys, err)"
        by (simp add: topological_sort_loop.simps)
      show ?thesis
        by (rule "1.IH" [OF False sc [symmetric] refl ne loop_inv_next [OF pinv] r])
    qed
  qed
qed

lemma loop_inv_init:
  assumes "distinct (map fst source)"
  shows "loop_inv source (map (\<lambda>(name, deps). (name, set deps)) source) [] []"
proof -
  have m: "map fst (map (\<lambda>(name, deps). (name, set deps)) source) = map fst source"
    by (induction source) auto
  have "\<forall>(n, D) \<in> set (map (\<lambda>(name, deps). (name, set deps)) source).
          \<exists>ds. map_of source n = Some ds \<and> D - set [] = set ds - set []"
  proof (intro ballI, clarify)
    fix n D assume "(n, D) \<in> set (map (\<lambda>(name, deps). (name, set deps)) source)"
    then obtain ds where "(n, ds) \<in> set source" "D = set ds" by auto
    with assms show "\<exists>ds. map_of source n = Some ds \<and> D - set [] = set ds - set []"
      by (auto intro: map_of_is_SomeI)
  qed
  moreover have "distinct (map fst (map (\<lambda>(name, deps). (name, set deps)) source) @ [])"
    using assms by (simp only: m append_Nil2)
  moreover have "set (map fst (map (\<lambda>(name, deps). (name, set deps)) source)) \<union> set [] = fst ` set source"
    by (simp only: m) simp
  ultimately show ?thesis
    unfolding loop_inv_def using deps_first_Nil by blast
qed

lemma topological_sort_correct:
  assumes "distinct (map fst source)" and "topological_sort source = (ys, err)"
  shows "distinct ys \<and> deps_first source ys \<and> set ys \<subseteq> fst ` set source \<and>
   (err = None \<longrightarrow> set ys = fst ` set source) \<and>
   (err \<noteq> None \<longrightarrow> err = Some ValueError \<and> (\<exists>n. n \<in> fst ` set source \<and> n \<notin> set ys) \<and>
      (\<forall>n ds. n \<notin> set ys \<longrightarrow> map_of source n = Some ds \<longrightarrow> \<not> set ds \<subseteq> set ys))"
  using topological_sort_loop_correct [OF loop_inv_init [OF assms(1)]] assms(2)
  unfolding topological_sort_def by blast


subsection \<open>Ordering of an acyclic specification\<close>

text \<open>
  Claim C1.  For a dependency specification without cycles, whose names are
  distinct and whose dependencies all name apps of the specification,
  \<open>topological_sort\<close> ends without raising, emits every app exactly once, and
  emits an app only after all of its dependencies: whenever the emitted order
  splits as \<open>pre @ name # post\<close>, every dependency of \<open>name\<close> is in \<open>pre\<close>.
\<close>

theorem topological_sort_acyclic:
  assumes "distinct (map fst source)"
    and "\<forall>(name, deps) \<in> set source. set deps \<subseteq> fst ` set source"
    and "acyclic (dep_rel source)"
  shows "\<exists>order. topological_sort source = (order, None) \<and>
           distinct order \<and> set order = fst ` set source \<and>
           (\<forall>pre name post deps. order = pre @ name # post \<longrightarrow> (name, deps) \<in> set source \<longrightarrow>
              set deps \<subseteq> set pre)"
proof -
  obtain ys err where res: "topological_sort source = (ys, err)"
    by (cases "topological_sort source") auto
  note corr = topological_sort_correct [OF assms(1) res]
  have "err = None"
  proof (rule ccontr)
    assume "err \<noteq> None"
    with corr obtain n0 where n0: "n0 \<in> fst ` set source" "n0 \<notin> set ys"
      and stuck: "\<forall>n ds. n \<notin> set ys \<longrightarrow> map_of source n = Some ds \<longrightarrow> \<not> set ds \<subseteq> set ys"
      by blast
    have "finite (dep_rel source)" unfolding dep_rel_def by (rule finite_set)
    then have "wf ((dep_rel source)\<inverse>)" using assms(3) by (rule finite_acyclic_wf_converse)
    moreover have "n0 \<in> fst ` set source - set ys" using n0 by simp
    ultimately obtain z where z: "z \<in> fst ` set source - set ys"
      and zmin: "\<And>y. (y, z) \<in> (dep_rel source)\<inverse> \<Longrightarrow> y \<notin> fst ` set source - set ys"
      by (rule wfE_min) blast
    from z obtain ds where zds: "(z, ds) \<in> set source" by auto
    with assms(1) have "map_of source z = Some ds" by (rule map_of_is_SomeI)
    with stuck z obtain d where d: "d \<in> set ds" "d \<notin> set ys" by blast
    from zds d(1) have "(z, d) \<in> dep_rel source" by (auto simp: mem_dep_rel)
    then have "d \<notin> fst ` set source - set ys" using zmin by blast
    moreover from assms(2) zds d(1) have "d \<in> fst ` set source" by blast
    ultimately show False using d(2) by blast
  qed
  moreover have "\<forall>pre name post deps. ys = pre @ name # post \<longrightarrow> (name, deps) \<in> set source \<longrightarrow>
              set deps \<subseteq> set pre"
  proof (intro allI impI)
    fix pre name post deps
    assume "ys = pre @ name # post" "(name, deps) \<in> set source"
    moreover from this(2) assms(1) have "map_of source name = Some deps"
      by (auto intro: map_of_is_SomeI)
    moreover from corr have "deps_first source ys" by simp
    ultimately show "set deps \<subseteq> set pre" unfolding deps_first_def by blast
  qed
  ultimately show ?thesis using corr res by blast
qed


lemma topological_sort_loop_Nil: "topological_sort_loop [] emitted yielded = (yielded, None)"
  by (simp add: topological_sort_loop.simps)

lemma topological_sort_loop_stuck:
  "pending \<noteq> [] \<Longrightarrow> scan_pending pending (emitted, [], []) = (em, np, []) \<Longrightarrow>
   topological_sort_loop pending emitted yielded = (yielded, Some ValueError)"
  by (subst topological_sort_loop.simps) simp

lemma topological_sort_loop_pass:
  "pending \<noteq> [] \<Longrightarrow> scan_pending pending (emitted, [], []) = (em, np, ne) \<Longrightarrow> ne \<noteq> [] \<Longrightarrow>
   topological_sort_loop pending emitted yielded = topological_sort_loop np ne (yielded @ ne)"
  by (subst topological_sort_loop.simps) simp

theorem topological_sort_acyclic_witness:
  "distinct (map fst [(''B'', [''A'']), (''A'', [])]) \<and>
   list_all (\<lambda>(name, deps). set deps \<subseteq> fst ` set [(''B'', [''A'']), (''A'', [])])
      [(''B'', [''A'']), (''A'', [])] \<and>
   acyclic (dep_rel [(''B'', [''A'']), (''A'', [])]) \<and>
   (\<exists>order. topological_sort [(''B'', [''A'']), (''A'', [])] = (order, None) \<and>
           distinct order \<and> set order = fst ` set [(''B'', [''A'']), (''A'', [])] \<and>
           (\<forall>pre name post deps. order = pre @ name # post \<longrightarrow>
              (name, deps) \<in> set [(''B'', [''A'']), (''A'', [])] \<longrightarrow> set deps \<subseteq> set pre)) \<and>
   topological_sort [(''B'', [''A'']), (''A'', [])] = ([''A'', ''B''], None)"
proof -
  let ?src = "[(''B'', [''A'']), (''A'', [])]"
  have h1: "distinct (map fst ?src)" by simp
  have h2: "\<forall>(name, deps) \<in> set ?src. set deps \<subseteq> fst ` set ?src" by simp
  have h3: "acyclic (dep_rel ?src)" by (simp add: dep_rel_def wf_acyclic)
  note ex = topological_sort_acyclic [OF h1 h2 h3]
  have p1: "scan_pending [(''B'', {''A''}), (''A'', {})] ([], [], []) =
              ([''A''], [(''B'', {''A''})], [''A''])"
    by (simp add: Let_def)
  have p2: "scan_pending [(''B'', {''A''})] ([''A''], [], []) = ([''A'', ''B''], [], [''B''])"
    by (simp add: Let_def)
  have ev: "topological_sort ?src = ([''A'', ''B''], None)"
    unfolding topological_sort_def
    by (simp add: topological_sort_loop_pass [OF _ p1] topological_sort_loop_pass [OF _ p2]
          topological_sort_loop_Nil)
  have h2': "list_all (\<lambda>(name, deps). set deps \<subseteq> fst ` set ?src) ?src" by simp
  show ?thesis
    by (intro conjI) (rule h1 h2' h3 ex ev)+
qed

subsection \<open>Dependents of the apps in the list\<close>

text \<open>
  \<open>depends_on cfg\<close> is the relation ``\<open>app\<close> names \<open>dep\<close> in its
  \<^verbatim>\<open>dependencies\<close>'' over the apps of the configuration.  A set is closed when
  it contains every app that depends on one of its members.
\<close>

definition depends_on :: "config \<Rightarrow> (app_name \<times> app_name) set" where
  "depends_on cfg = {(app, dep). \<exists>e ds. (app, e) \<in> set cfg \<and> dependencies_of e = Inr ds \<and> dep \<in> set ds}"

definition dependents_closed :: "config \<Rightarrow> app_name set \<Rightarrow> app_name set \<Rightarrow> bool" where
  "dependents_closed cfg new S \<longleftrightarrow> (\<forall>y \<in> new. \<forall>x. (x, y) \<in> depends_on cfg \<longrightarrow> x \<in> S)"

lemma dependents_closedD:
  "dependents_closed cfg new S \<Longrightarrow> y \<in> new \<Longrightarrow> (x, y) \<in> depends_on cfg \<Longrightarrow> x \<in> S"
  unfolding dependents_closed_def by blast

lemma dependents_closed_mono:
  "dependents_closed cfg new S \<Longrightarrow> S \<subseteq> S' \<Longrightarrow> dependents_closed cfg new S'"
  unfolding dependents_closed_def by blast

lemma dependents_closed_Un:
  "dependents_closed cfg A S \<Longrightarrow> dependents_closed cfg B S \<Longrightarrow> dependents_closed cfg (A \<union> B) S"
  unfolding dependents_closed_def by blast

lemma dependents_closed_subset:
  "dependents_closed cfg A S \<Longrightarrow> B \<subseteq> A \<Longrightarrow> dependents_closed cfg B S"
  unfolding dependents_closed_def by blast

lemma dependents_closed_empty: "dependents_closed cfg {} S"
  unfolding dependents_closed_def by blast

lemma get_dependent_apps_closure:
  "\<forall>r. get_dependent_apps cfg dependee deps = Inr r \<longrightarrow>
     set deps \<subseteq> set r \<and> dependents_closed cfg {dependee} (set r) \<and>
     dependents_closed cfg (set r - set deps) (set r)"
  "\<forall>r. dependents_in_apps cfg dependee rest deps = Inr r \<longrightarrow>
     set deps \<subseteq> set r \<and>
     (\<forall>app e ds. (app, e) \<in> set rest \<longrightarrow> dependencies_of e = Inr ds \<longrightarrow> dependee \<in> set ds \<longrightarrow>
        app \<in> set r) \<and>
     dependents_closed cfg (set r - set deps) (set r)"
  "\<forall>r. dependents_in_deps cfg dependee app ds deps = Inr r \<longrightarrow>
     set deps \<subseteq> set r \<and> (dependee \<in> set ds \<longrightarrow> app \<in> set r) \<and>
     dependents_closed cfg (set r - set deps) (set r)"
proof (induction cfg dependee deps and cfg dependee rest deps and cfg dependee app ds deps
    rule: get_dependent_apps_dependents_in_apps_dependents_in_deps.induct)
  case (1 cfg dependee deps)
  show ?case
  proof (intro allI impI)
    fix r assume "get_dependent_apps cfg dependee deps = Inr r"
    then have r: "dependents_in_apps cfg dependee cfg deps = Inr r" by simp
    with 1 have a: "set deps \<subseteq> set r"
      and b: "\<forall>app e ds. (app, e) \<in> set cfg \<longrightarrow> dependencies_of e = Inr ds \<longrightarrow> dependee \<in> set ds \<longrightarrow>
        app \<in> set r"
      and c: "dependents_closed cfg (set r - set deps) (set r)" by blast+
    from b have "dependents_closed cfg {dependee} (set r)"
      unfolding dependents_closed_def depends_on_def by blast
    with a c show "set deps \<subseteq> set r \<and> dependents_closed cfg {dependee} (set r) \<and>
     dependents_closed cfg (set r - set deps) (set r)" by blast
  qed
next
  case (2 cfg dependee deps)
  show ?case by (simp add: dependents_closed_empty)
next
  case (3 cfg dependee app e rest deps)
  show ?case
  proof (intro allI impI)
    fix r assume r: "dependents_in_apps cfg dependee ((app, e) # rest) deps = Inr r"
    from r obtain ds where ds: "dependencies_of e = Inr ds"
      by (cases "dependencies_of e") simp_all
    from r ds obtain deps' where
      d': "dependents_in_deps cfg dependee app ds deps = Inr deps'"
      by (cases "dependents_in_deps cfg dependee app ds deps") simp_all
    from r ds d' have r': "dependents_in_apps cfg dependee rest deps' = Inr r" by simp
    from "3.IH"(1) [OF ds] d' have a1: "set deps \<subseteq> set deps'"
      and b1: "dependee \<in> set ds \<longrightarrow> app \<in> set deps'"
      and c1: "dependents_closed cfg (set deps' - set deps) (set deps')" by blast+
    from "3.IH"(2) [OF ds d'] r' have a2: "set deps' \<subseteq> set r"
      and b2: "\<forall>app e ds. (app, e) \<in> set rest \<longrightarrow> dependencies_of e = Inr ds \<longrightarrow>
                 dependee \<in> set ds \<longrightarrow> app \<in> set r"
      and c2: "dependents_closed cfg (set r - set deps') (set r)" by blast+
    have A: "set deps \<subseteq> set r" using a1 a2 by blast
    have B: "\<forall>app' e' ds'. (app', e') \<in> set ((app, e) # rest) \<longrightarrow> dependencies_of e' = Inr ds' \<longrightarrow>
                 dependee \<in> set ds' \<longrightarrow> app' \<in> set r"
    proof (intro allI impI)
      fix app' e' ds'
      assume m: "(app', e') \<in> set ((app, e) # rest)" and "dependencies_of e' = Inr ds'"
        and "dependee \<in> set ds'"
      from m consider "app' = app" "e' = e" | "(app', e') \<in> set rest" by auto
      then show "app' \<in> set r"
      proof cases
        case 1
        with \<open>dependencies_of e' = Inr ds'\<close> ds have "ds' = ds" by simp
        with \<open>dependee \<in> set ds'\<close> b1 a2 1 show ?thesis by blast
      next
        case 2
        with b2 \<open>dependencies_of e' = Inr ds'\<close> \<open>dependee \<in> set ds'\<close> show ?thesis by blast
      qed
    qed
    have "dependents_closed cfg (set deps' - set deps) (set r)"
      by (rule dependents_closed_mono [OF c1 a2])
    from dependents_closed_Un [OF this c2]
    have C: "dependents_closed cfg (set r - set deps) (set r)"
      by (rule dependents_closed_subset) blast
    from A B C show "set deps \<subseteq> set r \<and>
       (\<forall>app' e' ds'. (app', e') \<in> set ((app, e) # rest) \<longrightarrow> dependencies_of e' = Inr ds' \<longrightarrow>
                 dependee \<in> set ds' \<longrightarrow> app' \<in> set r) \<and>
       dependents_closed cfg (set r - set deps) (set r)" by blast
  qed
next
  case (4 cfg dependee app deps)
  show ?case by (simp add: dependents_closed_empty)
next
  case (5 cfg dependee app dep ds deps)
  show ?case
  proof (intro allI impI)
    fix r assume r: "dependents_in_deps cfg dependee app (dep # ds) deps = Inr r"
    show "set deps \<subseteq> set r \<and> (dependee \<in> set (dep # ds) \<longrightarrow> app \<in> set r) \<and>
            dependents_closed cfg (set r - set deps) (set r)"
    proof (cases "dep = dependee \<and> app \<notin> set deps")
      case True
      from r True obtain deps' where
        d': "get_dependent_apps cfg app (deps @ [app]) = Inr deps'"
        by (cases "get_dependent_apps cfg app (deps @ [app])") simp_all
      from r True d' have r': "dependents_in_deps cfg dependee app ds deps' = Inr r" by simp
      from "5.IH"(1) [OF True] d' have a1: "set (deps @ [app]) \<subseteq> set deps'"
        and b1: "dependents_closed cfg {app} (set deps')"
        and c1: "dependents_closed cfg (set deps' - set (deps @ [app])) (set deps')" by blast+
      from "5.IH"(2) [OF True d'] r' have a2: "set deps' \<subseteq> set r"
        and c2: "dependents_closed cfg (set r - set deps') (set r)" by blast+
      have A: "set deps \<subseteq> set r" "app \<in> set r" using a1 a2 by auto
      have "dependents_closed cfg ({app} \<union> (set deps' - set (deps @ [app]))) (set deps')"
        by (rule dependents_closed_Un [OF b1 c1])
      then have "dependents_closed cfg ({app} \<union> (set deps' - set (deps @ [app]))) (set r)"
        by (rule dependents_closed_mono) (rule a2)
      from dependents_closed_Un [OF this c2]
      have C: "dependents_closed cfg (set r - set deps) (set r)"
        by (rule dependents_closed_subset) auto
      from A C show ?thesis by blast
    next
      case False
      with r have r': "dependents_in_deps cfg dependee app ds deps = Inr r" by simp
      from "5.IH"(3) [OF False] r' have a: "set deps \<subseteq> set r"
        and b: "dependee \<in> set ds \<longrightarrow> app \<in> set r"
        and c: "dependents_closed cfg (set r - set deps) (set r)" by blast+
      have "dependee \<in> set (dep # ds) \<longrightarrow> app \<in> set r"
      proof
        assume "dependee \<in> set (dep # ds)"
        then consider "dep = dependee" | "dependee \<in> set ds" by auto
        then show "app \<in> set r"
        proof cases
          case 1
          with False have "app \<in> set deps" by simp
          with a show ?thesis by blast
        next
          case 2
          with b show ?thesis by blast
        qed
      qed
      with a c show ?thesis by blast
    qed
  qed
qed


lemma collect_deplist_closed:
  "collect_deplist cfg applist deplist = Inr r \<Longrightarrow>
   dependents_closed cfg (set deplist) (set deplist) \<Longrightarrow>
   set deplist \<union> set applist \<subseteq> set r \<and> dependents_closed cfg (set r) (set r)"
proof (induction applist arbitrary: deplist)
  case Nil
  then show ?case by simp
next
  case (Cons app rest)
  let ?d0 = "if app \<notin> set deplist then deplist @ [app] else deplist"
  from Cons.prems(1) obtain d1 where d1: "get_dependent_apps cfg app ?d0 = Inr d1"
    by (cases "get_dependent_apps cfg app ?d0") simp_all
  with Cons.prems(1) have r: "collect_deplist cfg rest d1 = Inr r" by simp
  have s0: "set ?d0 = set deplist \<union> {app}" by auto
  from get_dependent_apps_closure(1) [of cfg app ?d0] d1
  have a: "set ?d0 \<subseteq> set d1" and b: "dependents_closed cfg {app} (set d1)"
    and c: "dependents_closed cfg (set d1 - set ?d0) (set d1)" by blast+
  from a s0 have sub: "set deplist \<subseteq> set d1" "app \<in> set d1" by auto
  have "dependents_closed cfg (set deplist) (set d1)"
    by (rule dependents_closed_mono [OF Cons.prems(2) sub(1)])
  from dependents_closed_Un [OF dependents_closed_Un [OF this b] c]
  have "dependents_closed cfg (set d1) (set d1)"
    by (rule dependents_closed_subset) (use s0 in auto)
  from Cons.IH [OF r this] sub show ?case by auto
qed

lemma dependents_closed_rtrancl:
  assumes "dependents_closed cfg S S" and "(y, x) \<in> (depends_on cfg)\<^sup>*" and "x \<in> S"
  shows "y \<in> S"
  using assms(2,3)
proof (induction rule: converse_rtrancl_induct)
  case base
  then show ?case .
next
  case (step y z)
  from step.IH [OF step.prems] have "z \<in> S" .
  from dependents_closedD [OF assms(1) this step.hyps(1)] show ?case .
qed

lemma map_of_filter_keys:
  "map_of (filter (\<lambda>(k, v). k \<in> S) xs) k = (if k \<in> S then map_of xs k else None)"
  by (induction xs) auto

text \<open>
  Claim C9.  \<open>get_app_deps_and_prios\<close> expands its input list with all
  transitive dependents before it filters the priorities: when \<open>X\<close> is in the
  input list and the dependency chain of \<open>Y\<close> reaches \<open>X\<close>, the returned
  dictionary has for \<open>Y\<close> exactly what the priority assignment has for \<open>Y\<close>, so
  \<open>Y\<close> is returned with its priority whenever it was assigned one.
\<close>

theorem transitive_dependents_included:
  assumes "get_app_deps_and_prios cfg applist = Inr final"
    and "X \<in> set applist" and "(Y, X) \<in> (depends_on cfg)\<^sup>*"
  shows "\<exists>prio_apps. assigned_priorities cfg = Inr prio_apps \<and>
           map_of final Y = map_of prio_apps Y"
proof -
  from assms(1) obtain deplist where dl: "collect_deplist cfg applist [] = Inr deplist"
    unfolding get_app_deps_and_prios_def
    by (cases "collect_deplist cfg applist []") simp_all
  from assms(1) dl obtain prio_apps where pa: "assigned_priorities cfg = Inr prio_apps"
    unfolding get_app_deps_and_prios_def
    by (cases "assigned_priorities cfg") simp_all
  from assms(1) dl pa have fin: "final = filter (\<lambda>(app, prio). app \<in> set deplist) prio_apps"
    unfolding get_app_deps_and_prios_def by simp
  have "dependents_closed cfg (set []) (set [])" by (simp add: dependents_closed_empty)
  from collect_deplist_closed [OF dl this]
  have "set applist \<subseteq> set deplist" "dependents_closed cfg (set deplist) (set deplist)" by auto
  with assms(2) have "X \<in> set deplist" by blast
  from dependents_closed_rtrancl [OF \<open>dependents_closed cfg (set deplist) (set deplist)\<close> assms(3) this]
  have "Y \<in> set deplist" .
  then have "map_of final Y = map_of prio_apps Y" by (simp add: fin map_of_filter_keys)
  with pa show ?thesis by blast
qed


definition plain_app :: "string \<Rightarrow> app_name list option \<Rightarrow> entry" where
  "plain_app m deps = App \<lparr>module = Some m, class_name = Some ''App'', dependencies = deps,
     global_dependencies = None, priority = None, disable = None, plugin = None,
     pin_thread = None, other_args = Map.empty\<rparr>"

text \<open>
  An example: \<open>C\<close> depends on \<open>B\<close>, which depends on \<open>A\<close>; asking for \<open>A\<close>
  alone returns all three.
\<close>

definition chain_config :: config where
  "chain_config = [(''A'', plain_app ''a'' None), (''B'', plain_app ''b'' (Some [''A''])),
                   (''C'', plain_app ''c'' (Some [''B'']))]"

lemma chain_config_deplist: "collect_deplist chain_config [''A''] [] = Inr [''A'', ''B'', ''C'']"
  by (simp add: chain_config_def plain_app_def)

lemma chain_config_deps:
  "build_deps chain_config chain_config =
     Inr ([(''A'', []), (''B'', [''A'']), (''C'', [''B''])], [])"
  by (simp add: chain_config_def plain_app_def)

lemma chain_config_sort:
  "topological_sort [(''A'', []), (''B'', [''A'']), (''C'', [''B''])] = ([''A'', ''B'', ''C''], None)"
proof -
  have p1: "scan_pending [(''A'', {}), (''B'', {''A''}), (''C'', {''B''})] ([], [], []) =
              ([''A'', ''B'', ''C''], [], [''A'', ''B'', ''C''])"
    by (simp add: Let_def)
  show ?thesis
    unfolding topological_sort_def
    by (simp add: topological_sort_loop_pass [OF _ p1] topological_sort_loop_Nil)
qed

lemma chain_config_prios:
  "assigned_priorities chain_config =
     Inr [(''A'', 501 / 10), (''B'', 501001 / 10000), (''C'', 250501 / 5000)]"
proof -
  have "assign_prios chain_config [''A'', ''B'', ''C''] ([], 501 / 10) =
          Inr ([(''A'', 501 / 10), (''B'', 501001 / 10000), (''C'', 250501 / 5000)],
               501003 / 10000)"
    by (simp add: chain_config_def plain_app_def)
  then show ?thesis
    by (simp only: assigned_priorities_def chain_config_deps chain_config_sort sum.case prod.case)
qed

lemma chain_config_result:
  "get_app_deps_and_prios chain_config [''A''] =
     Inr [(''A'', 501 / 10), (''B'', 501001 / 10000), (''C'', 250501 / 5000)]"
  by (simp only: get_app_deps_and_prios_def chain_config_deplist chain_config_prios sum.case) simp

theorem transitive_dependents_included_witness:
  "get_app_deps_and_prios chain_config [''A''] =
     Inr [(''A'', 501 / 10), (''B'', 501001 / 10000), (''C'', 250501 / 5000)] \<and>
   ''A'' \<in> set [''A''] \<and> (''C'', ''A'') \<in> (depends_on chain_config)\<^sup>* \<and>
   (\<exists>prio_apps. assigned_priorities chain_config = Inr prio_apps \<and>
      map_of [(''A'', 501 / 10), (''B'', 501001 / 10000), (''C'', 250501 / 5000)] ''C'' =
      map_of prio_apps ''C'')"
proof -
  have h2: "''A'' \<in> set [''A'']" by simp
  have "(''C'', ''B'') \<in> depends_on chain_config"
    unfolding depends_on_def chain_config_def plain_app_def by simp
  moreover have "(''B'', ''A'') \<in> depends_on chain_config"
    unfolding depends_on_def chain_config_def plain_app_def by simp
  ultimately have h3: "(''C'', ''A'') \<in> (depends_on chain_config)\<^sup>*"
    by (rule converse_rtrancl_into_rtrancl [OF _ r_into_rtrancl])
  note ex = transitive_dependents_included [OF chain_config_result h2 h3]
  show ?thesis
    by (intro conjI) (rule chain_config_result h2 h3 ex)+
qed

subsection \<open>Cyclic dependencies\<close>

text \<open>
  A configuration is well typed when no global module is named
  \<^verbatim>\<open>dependencies\<close> or \<^verbatim>\<open>priority\<close> and no name is bound to a number: then
  no subscript of a list and no membership test of a number is evaluated, and
  \<open>get_app_deps_and_prios\<close> raises nothing.
\<close>

definition well_typed :: "config \<Rightarrow> bool" where
  "well_typed cfg \<longleftrightarrow>
     (\<forall>name gl. (name, GlobalModules gl) \<in> set cfg \<longrightarrow>
        ''dependencies'' \<notin> set gl \<and> ''priority'' \<notin> set gl) \<and>
     (\<forall>name n. (name, Scalar n) \<notin> set cfg)"

lemma well_typed_dependencies_of:
  "well_typed cfg \<Longrightarrow> (name, e) \<in> set cfg \<Longrightarrow> \<exists>ds. dependencies_of e = Inr ds"
  unfolding well_typed_def by (cases e) auto

lemma well_typed_has_dependencies:
  "well_typed cfg \<Longrightarrow> (name, e) \<in> set cfg \<Longrightarrow> \<exists>b. has_dependencies e = Inr b"
  unfolding well_typed_def by (cases e) auto

lemma well_typed_configured_priority:
  "well_typed cfg \<Longrightarrow> (name, e) \<in> set cfg \<Longrightarrow> \<exists>p. configured_priority e = Inr p"
  unfolding well_typed_def by (cases e) auto

lemma takeWhile_neq_shorter:
  "d \<in> set xs \<Longrightarrow> length (takeWhile (\<lambda>y. y \<noteq> d) xs) < length xs"
  by (induction xs) auto

lemma deps_first_acyclic:
  assumes dist: "distinct (map fst src)" and df: "deps_first src ys"
    and all: "fst ` set src \<subseteq> set ys"
  shows "acyclic (dep_rel src)"
proof -
  let ?pos = "\<lambda>x. length (takeWhile (\<lambda>y. y \<noteq> x) ys)"
  have "(dep_rel src)\<inverse> \<subseteq> measure ?pos"
  proof
    fix p assume "p \<in> (dep_rel src)\<inverse>"
    then obtain d n where p: "p = (d, n)" and "(n, d) \<in> dep_rel src" by auto
    then obtain ds where nds: "(n, ds) \<in> set src" and d: "d \<in> set ds"
      by (auto simp: mem_dep_rel)
    from nds all have "n \<in> set ys" by force
    then obtain pre post where ys: "ys = pre @ n # post" and npre: "n \<notin> set pre"
      by (auto dest: split_list_first)
    from dist nds have "map_of src n = Some ds" by (rule map_of_is_SomeI)
    with df ys have "set ds \<subseteq> set pre" unfolding deps_first_def by blast
    with d have dpre: "d \<in> set pre" by blast
    have "\<And>y. y \<in> set pre \<Longrightarrow> y \<noteq> n" using npre by auto
    then have "?pos n = length pre" using ys by (simp add: takeWhile_append2)
    moreover have "takeWhile (\<lambda>y. y \<noteq> d) ys = takeWhile (\<lambda>y. y \<noteq> d) pre"
      using ys dpre by (simp add: takeWhile_append1)
    moreover have "length (takeWhile (\<lambda>y. y \<noteq> d) pre) < length pre"
      using dpre by (rule takeWhile_neq_shorter)
    ultimately have "?pos d < ?pos n" by simp
    with p show "p \<in> measure ?pos" by simp
  qed
  then have "wf ((dep_rel src)\<inverse>)" by (rule wf_subset [OF wf_measure])
  then have "acyclic ((dep_rel src)\<inverse>)" by (rule wf_acyclic)
  then show ?thesis by simp
qed


lemma check_dependees_valid:
  "check_dependees cfg app ds = (dependees, warnings) \<Longrightarrow> set dependees \<subseteq> fst ` set cfg"
proof (induction ds arbitrary: dependees warnings)
  case Nil
  then show ?case by simp
next
  case (Cons dep ds)
  obtain d' w' where r: "check_dependees cfg app ds = (d', w')"
    by (cases "check_dependees cfg app ds") auto
  from Cons.IH [OF r] have sub: "set d' \<subseteq> fst ` set cfg" .
  show ?case
  proof (cases "dep \<in> fst ` set cfg")
    case True
    with Cons.prems r have "dependees = dep # d'" by simp
    with sub True show ?thesis by simp
  next
    case False
    with Cons.prems r have "dependees = d'" by simp
    with sub show ?thesis by simp
  qed
qed

lemma build_deps_names:
  "build_deps cfg rest = Inr (deps, warnings) \<Longrightarrow>
   map fst deps = map fst rest \<and> (\<forall>app ds. (app, ds) \<in> set deps \<longrightarrow> set ds \<subseteq> fst ` set cfg)"
proof (induction rest arbitrary: deps warnings)
  case Nil
  then show ?case by simp
next
  case (Cons p rest)
  obtain app e where p: "p = (app, e)" by (cases p)
  from Cons.prems p obtain ds where ds: "dependencies_of e = Inr ds"
    by (cases "dependencies_of e") simp_all
  obtain dependees w where cd: "check_dependees cfg app ds = (dependees, w)"
    by (cases "check_dependees cfg app ds") auto
  from Cons.prems p ds cd obtain deps' w' where bd: "build_deps cfg rest = Inr (deps', w')"
    by (cases "build_deps cfg rest") auto
  from Cons.prems p ds cd bd have deps: "deps = (app, dependees) # deps'" by simp
  from Cons.IH [OF bd] check_dependees_valid [OF cd] deps p show ?case by auto
qed

lemma build_deps_total:
  "\<forall>name e. (name, e) \<in> set rest \<longrightarrow> (\<exists>ds. dependencies_of e = Inr ds) \<Longrightarrow>
   \<exists>deps warnings. build_deps cfg rest = Inr (deps, warnings)"
proof (induction rest)
  case Nil
  then show ?case by simp
next
  case (Cons p rest)
  obtain app e where p: "p = (app, e)" by (cases p)
  from Cons.prems p obtain ds where ds: "dependencies_of e = Inr ds" by auto
  obtain dependees w where cd: "check_dependees cfg app ds = (dependees, w)"
    by (cases "check_dependees cfg app ds") auto
  from Cons.prems have "\<forall>name e. (name, e) \<in> set rest \<longrightarrow> (\<exists>ds. dependencies_of e = Inr ds)"
    by auto
  from Cons.IH [OF this] obtain deps' w' where "build_deps cfg rest = Inr (deps', w')" by blast
  with p ds cd show ?case by simp
qed

lemma app_has_dependents_total:
  "\<forall>name e. (name, e) \<in> set rest \<longrightarrow> (\<exists>ds. dependencies_of e = Inr ds) \<Longrightarrow>
   \<exists>b. app_has_dependents rest app = Inr b"
proof (induction rest)
  case Nil
  show ?case by (rule exI [of _ False]) simp
next
  case (Cons p rest)
  obtain a e where p: "p = (a, e)" by (cases p)
  from Cons.prems p obtain ds where ds: "dependencies_of e = Inr ds" by auto
  from Cons.prems have "\<forall>name e. (name, e) \<in> set rest \<longrightarrow> (\<exists>ds. dependencies_of e = Inr ds)"
    by auto
  from Cons.IH [OF this] obtain b where "app_has_dependents rest app = Inr b" by blast
  then show ?case unfolding p using ds by (cases "app \<in> set ds") auto
qed

lemma update_fresh: "k \<notin> fst ` set al \<Longrightarrow> AList.update k v al = al @ [(k, v)]"
  by (induction al) auto

lemma assign_prios_total:
  assumes wt: "well_typed cfg"
  shows "set order \<subseteq> fst ` set cfg \<Longrightarrow> distinct order \<Longrightarrow>
         set order \<inter> fst ` set prio_apps = {} \<Longrightarrow>
         \<exists>prio_apps' prio'. assign_prios cfg order (prio_apps, prio) = Inr (prio_apps', prio') \<and>
            map fst prio_apps' = map fst prio_apps @ order"
proof (induction order arbitrary: prio_apps prio)
  case Nil
  then show ?case by simp
next
  case (Cons app rest)
  from Cons.prems(1) obtain e where e: "map_of cfg app = Some e"
    by (cases "map_of cfg app") (auto simp: map_of_eq_None_iff)
  then have mem: "(app, e) \<in> set cfg" by (rule map_of_SomeD)
  from Cons.prems(3) have fresh: "app \<notin> fst ` set prio_apps" by auto
  have step: "\<exists>prio_apps' prio'. assign_prios cfg rest (AList.update app v prio_apps, q) =
                  Inr (prio_apps', prio') \<and> map fst prio_apps' = map fst prio_apps @ app # rest"
    for v q
  proof -
    have upd: "AList.update app v prio_apps = prio_apps @ [(app, v)]"
      by (rule update_fresh [OF fresh])
    have "set rest \<inter> fst ` set (prio_apps @ [(app, v)]) = {}"
      using Cons.prems(2,3) by auto
    moreover have "set rest \<subseteq> fst ` set cfg" "distinct rest" using Cons.prems(1,2) by auto
    ultimately obtain pa' p' where
      "assign_prios cfg rest (prio_apps @ [(app, v)], q) = Inr (pa', p')"
      "map fst pa' = map fst (prio_apps @ [(app, v)]) @ rest"
      using Cons.IH [of "prio_apps @ [(app, v)]" q] by blast
    with upd show ?thesis by simp
  qed
  from well_typed_has_dependencies [OF wt mem] obtain hd where
    hd: "has_dependencies e = Inr hd" by blast
  show ?case
  proof (cases hd)
    case True
    with e hd step [of prio "prio + 1 / 10000"] show ?thesis by simp
  next
    case False
    from well_typed_dependencies_of [OF wt]
    have "\<forall>name e. (name, e) \<in> set cfg \<longrightarrow> (\<exists>ds. dependencies_of e = Inr ds)" by blast
    from app_has_dependents_total [OF this] obtain b where b: "app_has_dependents cfg app = Inr b"
      by blast
    show ?thesis
    proof (cases b)
      case True
      with e hd False b step [of prio "prio + 1 / 10000"] show ?thesis by simp
    next
      case nb: False
      from well_typed_configured_priority [OF wt mem] obtain p where
        p: "configured_priority e = Inr p" by blast
      with e hd False b nb step [of p prio] show ?thesis by simp
    qed
  qed
qed

lemma get_dependent_apps_total:
  "(\<forall>name e. (name, e) \<in> set cfg \<longrightarrow> (\<exists>ds. dependencies_of e = Inr ds)) \<longrightarrow>
     (\<exists>r. get_dependent_apps cfg dependee deps = Inr r)"
  "(\<forall>name e. (name, e) \<in> set cfg \<longrightarrow> (\<exists>ds. dependencies_of e = Inr ds)) \<longrightarrow>
   (\<forall>name e. (name, e) \<in> set rest \<longrightarrow> (\<exists>ds. dependencies_of e = Inr ds)) \<longrightarrow>
     (\<exists>r. dependents_in_apps cfg dependee rest deps = Inr r)"
  "(\<forall>name e. (name, e) \<in> set cfg \<longrightarrow> (\<exists>ds. dependencies_of e = Inr ds)) \<longrightarrow>
     (\<exists>r. dependents_in_deps cfg dependee app ds deps = Inr r)"
proof (induction cfg dependee deps and cfg dependee rest deps and cfg dependee app ds deps
    rule: get_dependent_apps_dependents_in_apps_dependents_in_deps.induct)
  case (1 cfg dependee deps)
  then show ?case by simp
next
  case (2 cfg dependee deps)
  show ?case by simp
next
  case (3 cfg dependee app e rest deps)
  show ?case
  proof (intro impI)
    assume wc: "\<forall>name e. (name, e) \<in> set cfg \<longrightarrow> (\<exists>ds. dependencies_of e = Inr ds)"
      and wr: "\<forall>name e'. (name, e') \<in> set ((app, e) # rest) \<longrightarrow> (\<exists>ds. dependencies_of e' = Inr ds)"
    from wr obtain ds where ds: "dependencies_of e = Inr ds" by auto
    from "3.IH"(1) [OF ds] wc obtain deps' where
      d': "dependents_in_deps cfg dependee app ds deps = Inr deps'" by blast
    from wr have "\<forall>name e'. (name, e') \<in> set rest \<longrightarrow> (\<exists>ds. dependencies_of e' = Inr ds)" by auto
    with "3.IH"(2) [OF ds d'] wc obtain r where "dependents_in_apps cfg dependee rest deps' = Inr r"
      by blast
    with ds d' show "\<exists>r. dependents_in_apps cfg dependee ((app, e) # rest) deps = Inr r" by simp
  qed
next
  case (4 cfg dependee app deps)
  show ?case by simp
next
  case (5 cfg dependee app dep ds deps)
  show ?case
  proof (intro impI)
    assume wc: "\<forall>name e. (name, e) \<in> set cfg \<longrightarrow> (\<exists>ds. dependencies_of e = Inr ds)"
    show "\<exists>r. dependents_in_deps cfg dependee app (dep # ds) deps = Inr r"
    proof (cases "dep = dependee \<and> app \<notin> set deps")
      case True
      from "5.IH"(1) [OF True] wc obtain deps' where
        d': "get_dependent_apps cfg app (deps @ [app]) = Inr deps'" by blast
      from "5.IH"(2) [OF True d'] wc obtain r where
        "dependents_in_deps cfg dependee app ds deps' = Inr r" by blast
      with True d' show ?thesis by simp
    next
      case False
      from "5.IH"(3) [OF False] wc obtain r where
        r: "dependents_in_deps cfg dependee app ds deps = Inr r" by blast
      from False have "dependents_in_deps cfg dependee app (dep # ds) deps =
                       dependents_in_deps cfg dependee app ds deps"
        by (cases "dep = dependee") (simp_all del: get_dependent_apps.simps)
      with r show ?thesis by simp
    qed
  qed
qed

lemma collect_deplist_total:
  assumes "\<forall>name e. (name, e) \<in> set cfg \<longrightarrow> (\<exists>ds. dependencies_of e = Inr ds)"
  shows "\<exists>r. collect_deplist cfg applist deplist = Inr r"
proof (induction applist arbitrary: deplist)
  case Nil
  show ?case by simp
next
  case (Cons app rest)
  let ?d0 = "if app \<notin> set deplist then deplist @ [app] else deplist"
  from get_dependent_apps_total(1) [of cfg app ?d0] assms
  obtain d1 where d1: "get_dependent_apps cfg app ?d0 = Inr d1" by blast
  from Cons.IH [of d1] obtain r where "collect_deplist cfg rest d1 = Inr r" by blast
  with d1 show ?case by simp
qed


text \<open>
  Claim C2.  When the dependency specification built from the configuration
  contains a cycle, \<open>topological_sort\<close> ends by raising \<open>ValueError\<close>: some
  configured app is not emitted, and every app that is not emitted still has a
  dependency that was not emitted.  \<open>get_app_deps_and_prios\<close> catches the error
  and keeps the priorities assigned so far: the priority dictionary has exactly
  the emitted apps as keys, in emission order; the returned dictionary has no
  entry for an app that was not emitted and, for the apps of the input list
  and their dependents, exactly the assigned priorities.
\<close>

theorem cyclic_dependencies_degrade:
  assumes dist: "distinct (map fst cfg)" and wt: "well_typed cfg"
    and bd: "build_deps cfg cfg = Inr (deps, warnings)"
    and cyc: "\<not> acyclic (dep_rel deps)"
  shows "\<exists>emitted prio_apps deplist final.
           topological_sort deps = (emitted, Some ValueError) \<and>
           (\<exists>app. app \<in> fst ` set cfg \<and> app \<notin> set emitted) \<and>
           (\<forall>app ds. (app, ds) \<in> set deps \<longrightarrow> app \<notin> set emitted \<longrightarrow> \<not> set ds \<subseteq> set emitted) \<and>
           assigned_priorities cfg = Inr prio_apps \<and> map fst prio_apps = emitted \<and>
           collect_deplist cfg applist [] = Inr deplist \<and> set applist \<subseteq> set deplist \<and>
           get_app_deps_and_prios cfg applist = Inr final \<and>
           (\<forall>app. app \<notin> set emitted \<longrightarrow> map_of final app = None) \<and>
           (\<forall>app. app \<in> set deplist \<longrightarrow> map_of final app = map_of prio_apps app)"
proof -
  from build_deps_names [OF bd] have names: "map fst deps = map fst cfg"
    and valid: "\<forall>app ds. (app, ds) \<in> set deps \<longrightarrow> set ds \<subseteq> fst ` set cfg" by blast+
  from names dist have ddist: "distinct (map fst deps)" by simp
  from names have keys: "fst ` set deps = fst ` set cfg" by (metis set_map)
  obtain emitted err where ts: "topological_sort deps = (emitted, err)"
    by (cases "topological_sort deps") auto
  note corr = topological_sort_correct [OF ddist ts]
  have err: "err \<noteq> None"
  proof
    assume "err = None"
    with corr have "fst ` set deps \<subseteq> set emitted" "deps_first deps emitted" by auto
    from deps_first_acyclic [OF ddist this(2) this(1)] cyc show False by contradiction
  qed
  with corr have raised: "err = Some ValueError"
    and stuck: "\<exists>app. app \<in> fst ` set cfg \<and> app \<notin> set emitted"
    and unmet: "\<forall>n ds. n \<notin> set emitted \<longrightarrow> map_of deps n = Some ds \<longrightarrow> \<not> set ds \<subseteq> set emitted"
    unfolding keys by blast+
  have unmet': "\<forall>app ds. (app, ds) \<in> set deps \<longrightarrow> app \<notin> set emitted \<longrightarrow> \<not> set ds \<subseteq> set emitted"
  proof (intro allI impI)
    fix app ds assume "(app, ds) \<in> set deps" "app \<notin> set emitted"
    moreover from this(1) ddist have "map_of deps app = Some ds" by (auto intro: map_of_is_SomeI)
    ultimately show "\<not> set ds \<subseteq> set emitted" using unmet by blast
  qed
  from corr keys have sub: "set emitted \<subseteq> fst ` set cfg" and de: "distinct emitted" by auto
  from assign_prios_total [OF wt sub de, of "[]" "501 / 10"]
  obtain prio_apps prio' where ap: "assign_prios cfg emitted ([], 501 / 10) = Inr (prio_apps, prio')"
    and pk: "map fst prio_apps = emitted" by auto
  from bd ts ap have asg: "assigned_priorities cfg = Inr prio_apps"
    unfolding assigned_priorities_def by simp
  from well_typed_dependencies_of [OF wt]
  have wd: "\<forall>name e. (name, e) \<in> set cfg \<longrightarrow> (\<exists>ds. dependencies_of e = Inr ds)" by blast
  from collect_deplist_total [OF wd] obtain deplist where
    dl: "collect_deplist cfg applist [] = Inr deplist" by blast
  have "dependents_closed cfg (set []) (set [])" by (simp add: dependents_closed_empty)
  from collect_deplist_closed [OF dl this] have al: "set applist \<subseteq> set deplist" by simp
  let ?final = "filter (\<lambda>(app, prio). app \<in> set deplist) prio_apps"
  from dl asg have g: "get_app_deps_and_prios cfg applist = Inr ?final"
    unfolding get_app_deps_and_prios_def by simp
  have none: "\<forall>app. app \<notin> set emitted \<longrightarrow> map_of ?final app = None"
  proof (intro allI impI)
    fix app assume "app \<notin> set emitted"
    with pk have "app \<notin> fst ` set prio_apps" by (metis set_map)
    then have "map_of prio_apps app = None" by (simp add: map_of_eq_None_iff)
    then show "map_of ?final app = None" by (simp add: map_of_filter_keys)
  qed
  have keep: "\<forall>app. app \<in> set deplist \<longrightarrow> map_of ?final app = map_of prio_apps app"
    by (simp add: map_of_filter_keys)
  from ts raised stuck unmet' asg pk dl al g none keep show ?thesis by blast
qed


text \<open>
  An example: \<open>A\<close> has no dependencies, \<open>B\<close> and \<open>C\<close> depend on each other.
  Only \<open>A\<close> is emitted and only \<open>A\<close> has a priority.
\<close>

definition cyclic_config :: config where
  "cyclic_config = [(''A'', plain_app ''a'' None), (''B'', plain_app ''b'' (Some [''C''])),
                    (''C'', plain_app ''c'' (Some [''B'']))]"

lemma cyclic_config_deps:
  "build_deps cyclic_config cyclic_config = Inr ([(''A'', []), (''B'', [''C'']), (''C'', [''B''])], [])"
  by (simp add: cyclic_config_def plain_app_def)

lemma cyclic_config_sort:
  "topological_sort [(''A'', []), (''B'', [''C'']), (''C'', [''B''])] = ([''A''], Some ValueError)"
proof -
  have p1: "scan_pending [(''A'', {}), (''B'', {''C''}), (''C'', {''B''})] ([], [], []) =
              ([''A''], [(''B'', {''C''}), (''C'', {''B''})], [''A''])"
    by (simp add: Let_def)
  have p2: "scan_pending [(''B'', {''C''}), (''C'', {''B''})] ([''A''], [], []) =
              ([''A''], [(''B'', {''C''}), (''C'', {''B''})], [])"
    by (simp add: Let_def)
  show ?thesis
    unfolding topological_sort_def
    by (simp add: topological_sort_loop_pass [OF _ p1] topological_sort_loop_stuck [OF _ p2])
qed

lemma cyclic_config_prios: "assigned_priorities cyclic_config = Inr [(''A'', 50)]"
proof -
  have "assign_prios cyclic_config [''A''] ([], 501 / 10) = Inr ([(''A'', 50)], 501 / 10)"
    by (simp add: cyclic_config_def plain_app_def)
  then show ?thesis
    by (simp only: assigned_priorities_def cyclic_config_deps cyclic_config_sort sum.case prod.case)
qed

lemma cyclic_config_deplist:
  "collect_deplist cyclic_config [''A'', ''B''] [] = Inr [''A'', ''B'', ''C'']"
  by (simp add: cyclic_config_def plain_app_def)

lemma cyclic_config_result:
  "get_app_deps_and_prios cyclic_config [''A'', ''B''] = Inr [(''A'', 50)]"
  by (simp only: get_app_deps_and_prios_def cyclic_config_deplist cyclic_config_prios sum.case) simp

theorem cyclic_dependencies_degrade_witness:
  "distinct (map fst cyclic_config) \<and> well_typed cyclic_config \<and>
   build_deps cyclic_config cyclic_config =
     Inr ([(''A'', []), (''B'', [''C'']), (''C'', [''B''])], []) \<and>
   \<not> acyclic (dep_rel [(''A'', []), (''B'', [''C'']), (''C'', [''B''])]) \<and>
   (\<exists>emitted prio_apps deplist final.
           topological_sort [(''A'', []), (''B'', [''C'']), (''C'', [''B''])] = (emitted, Some ValueError) \<and>
           (\<exists>app. app \<in> fst ` set cyclic_config \<and> app \<notin> set emitted) \<and>
           (\<forall>app ds. (app, ds) \<in> set [(''A'', []), (''B'', [''C'']), (''C'', [''B''])] \<longrightarrow>
              app \<notin> set emitted \<longrightarrow> \<not> set ds \<subseteq> set emitted) \<and>
           assigned_priorities cyclic_config = Inr prio_apps \<and> map fst prio_apps = emitted \<and>
           collect_deplist cyclic_config [''A'', ''B''] [] = Inr deplist \<and>
           set [''A'', ''B''] \<subseteq> set deplist \<and>
           get_app_deps_and_prios cyclic_config [''A'', ''B''] = Inr final \<and>
           (\<forall>app. app \<notin> set emitted \<longrightarrow> map_of final app = None) \<and>
           (\<forall>app. app \<in> set deplist \<longrightarrow> map_of final app = map_of prio_apps app)) \<and>
   topological_sort [(''A'', []), (''B'', [''C'']), (''C'', [''B''])] = ([''A''], Some ValueError) \<and>
   get_app_deps_and_prios cyclic_config [''A'', ''B''] = Inr [(''A'', 50)]"
proof -
  let ?deps = "[(''A'', []), (''B'', [''C'']), (''C'', [''B''])]"
  have h1: "distinct (map fst cyclic_config)" by (simp add: cyclic_config_def)
  have h2: "well_typed cyclic_config"
    by (simp add: well_typed_def cyclic_config_def plain_app_def)
  have "(''B'', ''C'') \<in> dep_rel ?deps" "(''C'', ''B'') \<in> dep_rel ?deps"
    by (simp_all add: dep_rel_def)
  then have "(''B'', ''B'') \<in> (dep_rel ?deps)\<^sup>+"
    by (rule trancl_into_trancl [OF r_into_trancl])
  then have h4: "\<not> acyclic (dep_rel ?deps)" unfolding acyclic_def by (rule contrapos_pn) simp
  note ex = cyclic_dependencies_degrade [OF h1 h2 cyclic_config_deps h4, of "[''A'', ''B'']"]
  show ?thesis
    by (intro conjI) (rule h1 h2 cyclic_config_deps h4 ex cyclic_config_sort cyclic_config_result)+
qed


subsection \<open>A dependency on an app that does not exist\<close>

text \<open>
  Claim C6.  The app \<open>A\<close> names the dependency \<open>Ghost\<close>, which is no app of the
  configuration.  The edge is dropped and the two warnings are logged, the
  second of which is ``Ignoring app A''.  The app is not ignored: its pair is
  appended to the dependency specification with an empty list, it is sorted
  like any other app, and the returned dictionary has a priority for it.
\<close>

definition missing_config :: config where
  "missing_config = [(''A'', plain_app ''a'' (Some [''Ghost'']))]"

lemma missing_config_deps:
  "build_deps missing_config missing_config =
     Inr ([(''A'', [])], [UnableToFindApp ''Ghost'' ''A'', IgnoringApp ''A''])"
  by (simp add: missing_config_def plain_app_def)

lemma missing_config_sort: "topological_sort [(''A'', [])] = ([''A''], None)"
proof -
  have p1: "scan_pending [(''A'', {})] ([], [], []) = ([''A''], [], [''A''])"
    by (simp add: Let_def)
  show ?thesis
    unfolding topological_sort_def
    by (simp add: topological_sort_loop_pass [OF _ p1] topological_sort_loop_Nil)
qed

lemma missing_config_prios: "assigned_priorities missing_config = Inr [(''A'', 501 / 10)]"
proof -
  have "assign_prios missing_config [''A''] ([], 501 / 10) =
          Inr ([(''A'', 501 / 10)], 501001 / 10000)"
    by (simp add: missing_config_def plain_app_def)
  then show ?thesis
    by (simp only: assigned_priorities_def missing_config_deps missing_config_sort
          sum.case prod.case)
qed

theorem missing_dependency_keeps_priority:
  "build_deps missing_config missing_config =
     Inr ([(''A'', [])], [UnableToFindApp ''Ghost'' ''A'', IgnoringApp ''A'']) \<and>
   get_app_deps_and_prios missing_config [''A''] = Inr [(''A'', 501 / 10)]"
proof -
  have "collect_deplist missing_config [''A''] [] = Inr [''A'']"
    by (simp add: missing_config_def plain_app_def)
  then have "get_app_deps_and_prios missing_config [''A''] = Inr [(''A'', 501 / 10)]"
    by (simp only: get_app_deps_and_prios_def missing_config_prios sum.case) simp
  with missing_config_deps show ?thesis by (rule conjI)
qed


subsection \<open>The configuration diff of \<^verbatim>\<open>check_config\<close>\<close>

text \<open>
  \<open>removed_names\<close> are the configured names that the new configuration lacks,
  \<open>changed_names\<close> those it binds to a different body.
\<close>

lemma dict_add_set: "set (dict_add name d) = insert name (set d)"
  by (auto simp: dict_add_def)

definition removed_names :: "config \<Rightarrow> config \<Rightarrow> app_name list" where
  "removed_names new_config old = filter (\<lambda>name. map_of new_config name = None) (map fst old)"

definition changed_names :: "config \<Rightarrow> config \<Rightarrow> app_name set" where
  "changed_names new_config old =
     {name. \<exists>e e'. (name, e) \<in> set old \<and> map_of new_config name = Some e' \<and> e \<noteq> e'}"

lemma term_object_fields:
  "app_config (term_object name st) = app_config st"
  "app_config_file_modified (term_object name st) = app_config_file_modified st"
  "app_config_files (term_object name st) = app_config_files st"
  "monitored_files (term_object name st) = monitored_files st"
  "modules (term_object name st) = modules st"
  "trace (term_object name st) = trace st @ [TermObject name]"
  "objects (term_object name st) = filter (\<lambda>(n, obj). n \<noteq> name) (objects st)"
  by (simp_all add: term_object_def)

lemma diff_existing_result:
  "diff_existing new_config old (t0, i0, st0) = (t, i, st) \<Longrightarrow>
   set t = set t0 \<union> changed_names new_config old \<and>
   set i = set i0 \<union> changed_names new_config old \<and>
   trace st = trace st0 @ map TermObject (removed_names new_config old) \<and>
   objects st = filter (\<lambda>(n, obj). n \<notin> set (removed_names new_config old)) (objects st0) \<and>
   app_config st = app_config st0 \<and>
   app_config_file_modified st = app_config_file_modified st0 \<and>
   app_config_files st = app_config_files st0 \<and>
   monitored_files st = monitored_files st0 \<and> modules st = modules st0"
proof (induction old arbitrary: t0 i0 st0)
  case Nil
  then show ?case by (simp add: changed_names_def removed_names_def)
next
  case (Cons p old)
  obtain name e where p: "p = (name, e)" by (cases p)
  have ch: "changed_names new_config ((name, e) # old) =
      (if \<exists>e'. map_of new_config name = Some e' \<and> e \<noteq> e' then {name} else {}) \<union>
      changed_names new_config old"
    unfolding changed_names_def by auto
  show ?case
  proof (cases "map_of new_config name")
    case None
    with Cons.prems p have
      "diff_existing new_config old (t0, i0, term_object name st0) = (t, i, st)" by simp
    from Cons.IH [OF this] None show ?thesis
      unfolding p ch by (simp add: removed_names_def term_object_fields split_def)
  next
    case (Some e')
    show ?thesis
    proof (cases "e = e'")
      case True
      with Cons.prems p Some have
        "diff_existing new_config old (t0, i0, st0) = (t, i, st)" by simp
      from Cons.IH [OF this] Some True show ?thesis
        unfolding p ch by (simp add: removed_names_def)
    next
      case False
      with Cons.prems p Some have
        "diff_existing new_config old (dict_add name t0, dict_add name i0, st0) = (t, i, st)"
        by simp
      from Cons.IH [OF this] Some False show ?thesis
        unfolding p ch by (simp add: removed_names_def dict_add_set)
    qed
  qed
qed

lemma diff_added_subset:
  "diff_added old new_config i0 = Inr i \<Longrightarrow>
   set i0 \<subseteq> set i \<and> set i \<subseteq> set i0 \<union> (fst ` set new_config - fst ` set old)"
proof (induction new_config arbitrary: i0)
  case Nil
  then show ?case by simp
next
  case (Cons p new_config)
  obtain name e where p: "p = (name, e)" by (cases p)
  show ?case
  proof (cases "name \<notin> fst ` set old")
    case True
    from Cons.prems p True obtain b where b: "has_class_and_module e = Inr b"
      by (cases "has_class_and_module e") simp_all
    show ?thesis
    proof (cases b)
      case True
      with Cons.prems p b \<open>name \<notin> fst ` set old\<close>
      have "diff_added old new_config (dict_add name i0) = Inr i" by simp
      from Cons.IH [OF this] \<open>name \<notin> fst ` set old\<close> show ?thesis
        unfolding p by (auto simp: dict_add_set)
    next
      case False
      with Cons.prems p b \<open>name \<notin> fst ` set old\<close>
      have "diff_added old new_config i0 = Inr i" by simp
      from Cons.IH [OF this] show ?thesis unfolding p by auto
    qed
  next
    case False
    with Cons.prems p have "diff_added old new_config i0 = Inr i" by simp
    from Cons.IH [OF this] show ?thesis unfolding p by auto
  qed
qed


lemma check_later_app_configs_fields:
  "check_later_app_configs env st l = (later, st1) \<Longrightarrow>
   app_config st1 = app_config st \<and> objects st1 = objects st \<and> trace st1 = trace st \<and>
   monitored_files st1 = monitored_files st \<and> modules st1 = modules st \<and>
   app_config_file_modified st1 = app_config_file_modified st"
  by (auto simp: check_later_app_configs_def Let_def split: option.splits prod.splits)

lemma finish_check_config_result:
  "finish_check_config add_threads env st t i n = (r, st') \<Longrightarrow>
   r = Some \<lparr>init_apps = i, term_apps = t, total_apps = n\<rparr> \<and>
   app_config st' = app_config st \<and> objects st' = objects st \<and>
   (\<exists>k. trace st' = trace st @ replicate k AddThread) \<and>
   app_config_file_modified st' = app_config_file_modified st \<and>
   app_config_files st' = app_config_files st \<and>
   monitored_files st' = monitored_files st \<and> modules st' = modules st"
proof (cases "add_threads \<and> auto_pin env \<and> n > threads env")
  case True
  assume "finish_check_config add_threads env st t i n = (r, st')"
  with True have r: "r = Some \<lparr>init_apps = i, term_apps = t, total_apps = n\<rparr>"
    and s: "st' = st\<lparr>trace := trace st @ replicate (n - threads env) AddThread\<rparr>"
    by (simp_all add: finish_check_config_def)
  from s have "trace st' = trace st @ replicate (n - threads env) AddThread" by simp
  then have "\<exists>k. trace st' = trace st @ replicate k AddThread" ..
  with r s show ?thesis by simp
next
  case False
  assume "finish_check_config add_threads env st t i n = (r, st')"
  with False have r: "r = Some \<lparr>init_apps = i, term_apps = t, total_apps = n\<rparr>"
    and s: "st' = st"
    by (auto simp: finish_check_config_def)
  have "trace st = trace st @ replicate 0 AddThread" by simp
  then have "\<exists>k. trace st = trace st @ replicate k AddThread" ..
  with r s show ?thesis by simp
qed

lemma check_config_changed:
  assumes res: "check_config add_threads env st = (Some p, st')"
    and ch: "app_config st' \<noteq> app_config st"
  shows "\<exists>st2 t i st3 i' k.
           diff_existing (app_config st') (app_config st) ([], [], st2) = (t, i, st3) \<and>
           diff_added (app_config st) (app_config st') i = Inr i' \<and>
           objects st2 = objects st \<and> trace st2 = trace st \<and>
           p = \<lparr>init_apps = i', term_apps = t, total_apps = length (app_config st')\<rparr> \<and>
           objects st' = objects st3 \<and> trace st' = trace st3 @ replicate k AddThread"
proof -
  obtain later st1 where cl: "check_later_app_configs env st (app_config_file_modified st) = (later, st1)"
    by (cases "check_later_app_configs env st (app_config_file_modified st)") auto
  note f1 = check_later_app_configs_fields [OF cl]
  define st2 where "st2 = st1\<lparr>app_config_file_modified := latest later\<rparr>"
  have f2: "app_config st2 = app_config st" "objects st2 = objects st" "trace st2 = trace st"
    using f1 by (simp_all add: st2_def)
  show ?thesis
  proof (cases "files later \<noteq> [] \<or> deleted later \<noteq> Some []")
    case False
    with res cl have "finish_check_config add_threads env st2 [] [] (length (app_config st)) = (Some p, st')"
      by (simp add: check_config_def st2_def Let_def)
    from finish_check_config_result [OF this] f2 ch show ?thesis by simp
  next
    case True
    from res cl True obtain new_config where rc: "read_config env = Inr (Some new_config)"
      by (cases "read_config env") (auto simp: check_config_def Let_def split: option.splits)
    from res cl True rc obtain gone where g: "deleted later = Some gone"
      by (cases "deleted later") (auto simp: check_config_def Let_def)
    obtain t i st3 where de: "diff_existing new_config (app_config st2) ([], [], st2) = (t, i, st3)"
      by (cases "diff_existing new_config (app_config st2) ([], [], st2)") auto
    from res cl True rc g de obtain i' where da: "diff_added (app_config st3) new_config i = Inr i'"
      by (cases "diff_added (app_config st3) new_config i")
         (auto simp: check_config_def Let_def st2_def)
    from res cl True rc g de da have fin:
      "finish_check_config add_threads env (st3\<lparr>app_config := new_config\<rparr>) t i' (length new_config)
         = (Some p, st')"
      by (auto simp: check_config_def Let_def st2_def)
    from finish_check_config_result [OF fin] obtain k where
      p: "p = \<lparr>init_apps = i', term_apps = t, total_apps = length new_config\<rparr>"
      and ac: "app_config st' = new_config" and ob: "objects st' = objects st3"
      and tr: "trace st' = trace st3 @ replicate k AddThread" by auto
    from diff_existing_result [OF de] have "app_config st3 = app_config st2" by simp
    with f2 have ac3: "app_config st3 = app_config st" by simp
    from de f2 ac have de': "diff_existing (app_config st') (app_config st) ([], [], st2) = (t, i, st3)"
      by simp
    from da ac3 ac have da': "diff_added (app_config st) (app_config st') i = Inr i'" by simp
    from de' da' f2 p ac ob tr show ?thesis by blast
  qed
qed


text \<open>
  Claim C7.  \<open>AppA\<close> is in the stored configuration before \<open>check_config\<close> and
  not after it; \<open>AppB\<close> has the same body before and after, and that body names
  \<open>AppA\<close> as a dependency.  Then \<open>check_config\<close> calls \<open>term_object\<close> for \<open>AppA\<close>
  itself: the registry has no object for \<open>AppA\<close> afterwards and \<open>AppA\<close> is in
  neither set of the plan, so it never reaches the dependency ordering of
  \<open>get_app_deps_and_prios\<close>.  \<open>AppB\<close> is not terminated: no \<open>term_object\<close> call is
  made for it, it is in neither set of the plan, and its registry entry is
  what it was.
\<close>

theorem deleted_app_terminated_without_cascade:
  assumes res: "check_config add_threads env st = (Some p, st')"
    and dist: "distinct (map fst (app_config st))"
    and a_old: "AppA \<in> fst ` set (app_config st)"
    and a_new: "AppA \<notin> fst ` set (app_config st')"
    and b_old: "map_of (app_config st) AppB = Some e"
    and b_new: "map_of (app_config st') AppB = Some e"
    and b_dep: "dependencies_of e = Inr ds" "AppA \<in> set ds"
  shows "\<exists>evs. trace st' = trace st @ evs \<and>
           TermObject AppA \<in> set evs \<and> TermObject AppB \<notin> set evs \<and>
           AppA \<notin> fst ` set (objects st') \<and>
           AppA \<notin> set (term_apps p) \<and> AppA \<notin> set (init_apps p) \<and>
           AppB \<notin> set (term_apps p) \<and> AppB \<notin> set (init_apps p) \<and>
           map_of (objects st') AppB = map_of (objects st) AppB"
proof -
  let ?new = "app_config st'" and ?old = "app_config st"
  from a_old a_new have "?new \<noteq> ?old" by auto
  from check_config_changed [OF res this] obtain st2 t i st3 i' k where
    de: "diff_existing ?new ?old ([], [], st2) = (t, i, st3)"
    and da: "diff_added ?old ?new i = Inr i'"
    and o2: "objects st2 = objects st" and t2: "trace st2 = trace st"
    and p: "p = \<lparr>init_apps = i', term_apps = t, total_apps = length ?new\<rparr>"
    and ob: "objects st' = objects st3"
    and tr: "trace st' = trace st3 @ replicate k AddThread" by blast
  from diff_existing_result [OF de] have
    st: "set t = changed_names ?new ?old" and si: "set i = changed_names ?new ?old"
    and tr3: "trace st3 = trace st2 @ map TermObject (removed_names ?new ?old)"
    and ob3: "objects st3 = filter (\<lambda>(n, obj). n \<notin> set (removed_names ?new ?old)) (objects st2)"
    by simp_all
  from a_new have a_none: "map_of ?new AppA = None" by (simp add: map_of_eq_None_iff)
  with a_old have a_rem: "AppA \<in> set (removed_names ?new ?old)"
    unfolding removed_names_def by auto
  from b_new have b_rem: "AppB \<notin> set (removed_names ?new ?old)"
    unfolding removed_names_def by auto
  have a_ch: "AppA \<notin> changed_names ?new ?old" using a_none unfolding changed_names_def by auto
  have b_ch: "AppB \<notin> changed_names ?new ?old"
  proof
    assume "AppB \<in> changed_names ?new ?old"
    then obtain e1 e2 where "(AppB, e1) \<in> set ?old" "map_of ?new AppB = Some e2" "e1 \<noteq> e2"
      unfolding changed_names_def by blast
    moreover from this(1) dist have "map_of ?old AppB = Some e1" by (auto intro: map_of_is_SomeI)
    ultimately show False using b_old b_new by simp
  qed
  from b_old have b_in_old: "AppB \<in> fst ` set ?old" by (metis map_of_SomeD fst_conv image_eqI)
  from diff_added_subset [OF da] have i'sub: "set i' \<subseteq> set i \<union> (fst ` set ?new - fst ` set ?old)"
    by simp
  let ?evs = "map TermObject (removed_names ?new ?old) @ replicate k AddThread"
  have e1: "trace st' = trace st @ ?evs" using tr tr3 t2 by simp
  have e2: "TermObject AppA \<in> set ?evs" using a_rem by auto
  have e3: "TermObject AppB \<notin> set ?evs" using b_rem by auto
  have e4: "AppA \<notin> fst ` set (objects st')" using ob ob3 a_rem by auto
  have e5: "AppA \<notin> set (term_apps p)" using p st a_ch by simp
  have e6: "AppA \<notin> set (init_apps p)" using p i'sub si a_ch a_old by auto
  have e7: "AppB \<notin> set (term_apps p)" using p st b_ch by simp
  have e8: "AppB \<notin> set (init_apps p)" using p i'sub si b_ch b_in_old by auto
  have "map_of (filter (\<lambda>(n, obj). n \<notin> S) xs) AppB = map_of xs AppB" if "AppB \<notin> S"
    for S and xs :: "(app_name \<times> app_object) list"
    using that by (induction xs) auto
  from this [OF b_rem] have e9: "map_of (objects st') AppB = map_of (objects st) AppB"
    using ob ob3 o2 by simp
  from e1 e2 e3 e4 e5 e6 e7 e8 e9 show ?thesis by blast
qed


text \<open>
  An example: \<open>A\<close> and \<open>B\<close> are running, \<open>B\<close> depends on \<open>A\<close>, and the document
  is changed so that it defines \<open>B\<close> only.
\<close>

definition running_state :: state where
  "running_state = \<lparr>app_config = [(''A'', plain_app ''a'' None), (''B'', plain_app ''b'' (Some [''A'']))],
     app_config_file_modified = 10,
     app_config_files = Some [''apps.yaml''],
     monitored_files = [(''a.py'', 5), (''b.py'', 5)],
     modules = [''a'', ''b''],
     objects = [(''A'', \<lparr>pin_app = False, obj_pin_thread = -1\<rparr>),
                (''B'', \<lparr>pin_app = False, obj_pin_thread = -1\<rparr>)],
     trace = []\<rparr>"

definition basic_env :: "(path \<times> timestamp \<times> document) list \<Rightarrow> (path \<times> timestamp option) list \<Rightarrow> env" where
  "basic_env yamls pys = \<lparr>apps_enabled = True, config_file = None, yaml_files = yamls,
     py_files = pys, init_py = ''__init__.py'', threads = 10, auto_pin = False,
     should_pin = (\<lambda>app. False), loads = (\<lambda>m. True), in_sys_modules = (\<lambda>m. False),
     instantiate = (\<lambda>app. Instance)\<rparr>"

definition env_A_deleted :: env where
  "env_A_deleted = basic_env
     [(''apps.yaml'', 20, Dict [(''B'', Body (plain_app ''b'' (Some [''A''])))])]
     [(''a.py'', Some 5), (''b.py'', Some 5)]"

definition after_A_deleted :: state where
  "after_A_deleted = running_state\<lparr>app_config := [(''B'', plain_app ''b'' (Some [''A'']))],
      app_config_file_modified := 20,
      objects := [(''B'', \<lparr>pin_app = False, obj_pin_thread = -1\<rparr>)],
      trace := [TermObject ''A'']\<rparr>"

lemma check_config_A_deleted:
  "check_config True env_A_deleted running_state =
     (Some \<lparr>init_apps = [], term_apps = [], total_apps = 1\<rparr>, after_A_deleted)"
  by (simp add: check_config_def check_later_app_configs_def read_config_def
        finish_check_config_def env_A_deleted_def basic_env_def running_state_def plain_app_def
        term_object_def dict_add_def Let_def after_A_deleted_def)

theorem deleted_app_terminated_without_cascade_witness:
  "check_config True env_A_deleted running_state =
     (Some \<lparr>init_apps = [], term_apps = [], total_apps = 1\<rparr>, after_A_deleted) \<and>
   distinct (map fst (app_config running_state)) \<and>
   ''A'' \<in> fst ` set (app_config running_state) \<and>
   ''A'' \<notin> fst ` set (app_config after_A_deleted) \<and>
   map_of (app_config running_state) ''B'' = Some (plain_app ''b'' (Some [''A''])) \<and>
   map_of (app_config after_A_deleted) ''B'' = Some (plain_app ''b'' (Some [''A''])) \<and>
   dependencies_of (plain_app ''b'' (Some [''A''])) = Inr [''A''] \<and> ''A'' \<in> set [''A''] \<and>
   (\<exists>evs. trace after_A_deleted = trace running_state @ evs \<and>
           TermObject ''A'' \<in> set evs \<and> TermObject ''B'' \<notin> set evs \<and>
           ''A'' \<notin> fst ` set (objects after_A_deleted) \<and>
           ''A'' \<notin> set (term_apps \<lparr>init_apps = [], term_apps = [], total_apps = 1\<rparr>) \<and>
           ''A'' \<notin> set (init_apps \<lparr>init_apps = [], term_apps = [], total_apps = 1\<rparr>) \<and>
           ''B'' \<notin> set (term_apps \<lparr>init_apps = [], term_apps = [], total_apps = 1\<rparr>) \<and>
           ''B'' \<notin> set (init_apps \<lparr>init_apps = [], term_apps = [], total_apps = 1\<rparr>) \<and>
           map_of (objects after_A_deleted) ''B'' = map_of (objects running_state) ''B'')"
proof -
  have h2: "distinct (map fst (app_config running_state))" by (simp add: running_state_def)
  have h3: "''A'' \<in> fst ` set (app_config running_state)" by (simp add: running_state_def)
  have h4: "''A'' \<notin> fst ` set (app_config after_A_deleted)"
    by (simp add: after_A_deleted_def running_state_def)
  have h5: "map_of (app_config running_state) ''B'' = Some (plain_app ''b'' (Some [''A'']))"
    by (simp add: running_state_def)
  have h6: "map_of (app_config after_A_deleted) ''B'' = Some (plain_app ''b'' (Some [''A'']))"
    by (simp add: after_A_deleted_def running_state_def)
  have h7: "dependencies_of (plain_app ''b'' (Some [''A''])) = Inr [''A'']"
    by (simp add: plain_app_def)
  have h8: "''A'' \<in> set [''A'']" by simp
  note ex = deleted_app_terminated_without_cascade [OF check_config_A_deleted h2 h3 h4 h5 h6 h7 h8]
  show ?thesis
    by (intro conjI) (rule check_config_A_deleted h2 h3 h4 h5 h6 h7 h8 ex)+
qed

subsection \<open>An exception while the configuration is read\<close>

lemma scan_yaml_result:
  "scan_yaml ys l (listing, later, newest) = (listing', later', newest') \<Longrightarrow>
   listing' = listing @ map fst ys \<and>
   later' = later @ map fst (filter (\<lambda>(file, ts, doc). ts > l) ys) \<and>
   newest' = Max (insert newest ((\<lambda>(file, ts, doc). ts) ` set ys))"
proof (induction ys arbitrary: listing later newest)
  case Nil
  then show ?case by simp
next
  case (Cons y ys)
  obtain f ts doc where y: "y = (f, ts, doc)" by (cases y)
  let ?n = "if ts > newest then ts else newest"
  from Cons.prems y have
    "scan_yaml ys l (listing @ [f], if ts > l then later @ [f] else later, ?n)
       = (listing', later', newest')" by simp
  from Cons.IH [OF this] have a: "listing' = (listing @ [f]) @ map fst ys"
    and b: "later' = (if ts > l then later @ [f] else later) @
               map fst (filter (\<lambda>(file, ts, doc). ts > l) ys)"
    and c: "newest' = Max (insert ?n ((\<lambda>(file, ts, doc). ts) ` set ys))" by blast+
  have "Max (insert ?n ((\<lambda>(file, ts, doc). ts) ` set ys)) =
        Max (insert newest ((\<lambda>(file, ts, doc). ts) ` set (y # ys)))"
  proof -
    have fin: "finite ((\<lambda>(file, ts, doc). ts) ` set ys)" by simp
    have "Max (insert newest (insert ts ((\<lambda>(file, ts, doc). ts) ` set ys))) =
          max newest (Max (insert ts ((\<lambda>(file, ts, doc). ts) ` set ys)))"
      using fin by simp
    also have "\<dots> = Max (insert (max newest ts) ((\<lambda>(file, ts, doc). ts) ` set ys))"
      using fin by (cases "(\<lambda>(file, ts, doc). ts) ` set ys = {}") (simp_all add: max.assoc)
    also have "max newest ts = ?n" by (simp add: max_def)
    finally show ?thesis unfolding y by simp
  qed
  with a b c show ?case unfolding y by simp
qed

text \<open>
  Claim C4, as the code has it.  When \<open>check_config\<close> reads the configuration
  and \<open>read_config\<close> raises, \<open>check_config\<close> returns no plan; in the state it
  returns with, the stored configuration, the registry, the monitored files
  and the loaded modules are what they were and nothing was terminated.  The
  watermark is not retained: it was set to the newest modification time
  before the read, and the stored listing of configuration files was replaced
  by the current one.
\<close>

theorem check_config_read_failure:
  assumes rd: "read_config env = Inl err"
    and cl: "check_later_app_configs env st (app_config_file_modified st) = (later, st1)"
    and ch: "files later \<noteq> [] \<or> deleted later \<noteq> Some []"
  shows "\<exists>st'. check_config add_threads env st = (None, st') \<and>
           app_config st' = app_config st \<and> objects st' = objects st \<and>
           trace st' = trace st \<and> monitored_files st' = monitored_files st \<and>
           modules st' = modules st \<and>
           app_config_file_modified st' =
             Max (insert (app_config_file_modified st) ((\<lambda>(file, ts, doc). ts) ` set (yaml_files env))) \<and>
           app_config_files st' = Some (map fst (yaml_files env))"
proof -
  from rd have dir: "config_file env = None"
    by (cases "config_file env") (auto simp: read_config_def)
  obtain listing lat newest where sc:
    "scan_yaml (yaml_files env) (app_config_file_modified st) ([], [], app_config_file_modified st)
       = (listing, lat, newest)"
    by (cases "scan_yaml (yaml_files env) (app_config_file_modified st)
                 ([], [], app_config_file_modified st)") auto
  from scan_yaml_result [OF sc] have l: "listing = map fst (yaml_files env)"
    and n: "newest = Max (insert (app_config_file_modified st)
                      ((\<lambda>(file, ts, doc). ts) ` set (yaml_files env)))" by simp_all
  from cl dir sc have lt: "latest later = newest" and s1: "st1 = st\<lparr>app_config_files := Some listing\<rparr>"
    by (auto simp: check_later_app_configs_def Let_def)
  let ?st' = "st1\<lparr>app_config_file_modified := latest later\<rparr>"
  from rd cl ch have "check_config add_threads env st = (None, ?st')"
    by (simp add: check_config_def Let_def)
  moreover have "app_config ?st' = app_config st" "objects ?st' = objects st"
    "trace ?st' = trace st" "monitored_files ?st' = monitored_files st" "modules ?st' = modules st"
    "app_config_file_modified ?st' = Max (insert (app_config_file_modified st)
                      ((\<lambda>(file, ts, doc). ts) ` set (yaml_files env)))"
    "app_config_files ?st' = Some (map fst (yaml_files env))"
    using s1 lt l n by simp_all
  ultimately show ?thesis by blast
qed

text \<open>
  An example: the document binds \<open>A\<close> to the number 5, on which the test
  \<^verbatim>\<open>"class" in config[app]\<close> raises \<^verbatim>\<open>TypeError\<close>.
\<close>

definition env_bad_document :: env where
  "env_bad_document = basic_env
     [(''apps.yaml'', 20, Dict [(''A'', Body (Scalar 5))])]
     [(''a.py'', Some 5), (''b.py'', Some 5)]"

lemma read_config_bad_document: "read_config env_bad_document = Inl TypeError"
  by (simp add: read_config_def env_bad_document_def basic_env_def)

theorem check_config_read_failure_witness:
  "read_config env_bad_document = Inl TypeError \<and>
   check_later_app_configs env_bad_document running_state (app_config_file_modified running_state) =
     (\<lparr>latest = 20, files = [''apps.yaml''], deleted = Some []\<rparr>,
      running_state\<lparr>app_config_files := Some [''apps.yaml'']\<rparr>) \<and>
   files \<lparr>latest = 20, files = [''apps.yaml''], deleted = Some []\<rparr> = [''apps.yaml''] \<and>
   (\<exists>st'. check_config True env_bad_document running_state = (None, st') \<and>
           app_config st' = app_config running_state \<and> objects st' = objects running_state \<and>
           trace st' = trace running_state \<and>
           monitored_files st' = monitored_files running_state \<and>
           modules st' = modules running_state \<and>
           app_config_file_modified st' =
             Max (insert (app_config_file_modified running_state)
                    ((\<lambda>(file, ts, doc). ts) ` set (yaml_files env_bad_document))) \<and>
           app_config_files st' = Some (map fst (yaml_files env_bad_document)))"
proof -
  have cl: "check_later_app_configs env_bad_document running_state
              (app_config_file_modified running_state) =
     (\<lparr>latest = 20, files = [''apps.yaml''], deleted = Some []\<rparr>,
      running_state\<lparr>app_config_files := Some [''apps.yaml'']\<rparr>)"
    by (simp add: check_later_app_configs_def env_bad_document_def basic_env_def
          running_state_def Let_def)
  have f: "files \<lparr>latest = 20, files = [''apps.yaml''], deleted = Some []\<rparr> = [''apps.yaml'']"
    by simp
  have ch: "files \<lparr>latest = 20, files = [''apps.yaml''], deleted = Some []\<rparr> \<noteq> [] \<or>
            deleted \<lparr>latest = 20, files = [''apps.yaml''], deleted = Some []\<rparr> \<noteq> Some []"
    by simp
  note ex = check_config_read_failure [OF read_config_bad_document cl ch, of True]
  show ?thesis
    by (intro conjI) (rule read_config_bad_document cl f ex)+
qed

text \<open>
  Two more examples.  In the first the same document is found together with
  a new module \<^verbatim>\<open>helper.py\<close>.  In the second the document defines \<open>B\<close> only and
  binds \<^verbatim>\<open>global_modules\<close> to the number 5: \<open>read_config\<close> takes the entry as it
  is, and the later test \<^verbatim>\<open>"class" in new_config[name]\<close> raises \<^verbatim>\<open>TypeError\<close>.
\<close>

lemma helper_module: "get_module_from_path ''helper.py'' = ''helper''"
  by (simp add: get_module_from_path_def basename_def splitext_root_def)

definition env_bad_document_new_module :: env where
  "env_bad_document_new_module = basic_env
     [(''apps.yaml'', 20, Dict [(''A'', Body (Scalar 5))])]
     [(''a.py'', Some 5), (''b.py'', Some 5), (''helper.py'', Some 6)]"

definition env_bad_entry :: env where
  "env_bad_entry = basic_env
     [(''apps.yaml'', 20, Dict [(''B'', Body (plain_app ''b'' (Some [''A'']))),
                                (''global_modules'', Body (Scalar 5))])]
     [(''a.py'', Some 5), (''b.py'', Some 5)]"

lemma read_config_bad_entry:
  "read_config env_bad_entry =
     Inr (Some [(''B'', plain_app ''b'' (Some [''A''])), (''global_modules'', Scalar 5)])"
  by (simp add: read_config_def env_bad_entry_def basic_env_def plain_app_def)

lemma check_config_bad_entry:
  "check_config True env_bad_entry running_state =
     (None, running_state\<lparr>app_config_file_modified := 20,
              objects := [(''B'', \<lparr>pin_app = False, obj_pin_thread = -1\<rparr>)],
              trace := [TermObject ''A'']\<rparr>)"
  by (simp add: check_config_def check_later_app_configs_def read_config_def
        env_bad_entry_def basic_env_def running_state_def plain_app_def
        term_object_def dict_add_def Let_def)

lemma check_config_bad_document_new_module:
  "check_config True env_bad_document_new_module running_state =
     (None, running_state\<lparr>app_config_file_modified := 20\<rparr>)"
  by (simp add: check_config_def check_later_app_configs_def read_config_def
        env_bad_document_new_module_def basic_env_def running_state_def Let_def)

lemma plan_updates_bad_document_new_module:
  "plan_updates None False env_bad_document_new_module running_state =
     (Inr (None, [(''helper.py'', False)]),
      running_state\<lparr>app_config_file_modified := 20,
        monitored_files := [(''a.py'', 5), (''b.py'', 5), (''helper.py'', 6)]\<rparr>)"
proof -
  have sc: "scan_modules (init_py env_bad_document_new_module) (py_files env_bad_document_new_module)
      ([], monitored_files running_state) =
     ([(''helper.py'', False)], [(''a.py'', 5), (''b.py'', 5), (''helper.py'', 6)])"
    by (simp add: env_bad_document_new_module_def basic_env_def running_state_def)
  have dm: "deleted_modules False (py_files env_bad_document_new_module)
              [(''a.py'', 5), (''b.py'', 5), (''helper.py'', 6)] = []"
    by (simp add: deleted_modules_def env_bad_document_new_module_def basic_env_def)
  have mm: "mark_modules (app_config running_state) [(''helper.py'', False)] None = Inr None"
    by (simp add: helper_module running_state_def plain_app_def global_module_names_def)
  show ?thesis
    by (simp add: plan_updates_def check_config_bad_document_new_module sc dm mm
          del: mark_modules.simps)
qed

lemma check_app_updates_bad_document_new_module:
  "check_app_updates None False env_bad_document_new_module running_state =
     (Inr (),
      running_state\<lparr>app_config_file_modified := 20,
        monitored_files := [(''a.py'', 5), (''b.py'', 5), (''helper.py'', 6)],
        trace := [ReadApp ''helper.py'' False]\<rparr>)"
proof -
  have en: "apps_enabled env_bad_document_new_module"
    by (simp add: env_bad_document_new_module_def basic_env_def)
  have ld: "load_modules env_bad_document_new_module [(''helper.py'', False)] None
     (running_state\<lparr>app_config_file_modified := 20,
        monitored_files := [(''a.py'', 5), (''b.py'', 5), (''helper.py'', 6)]\<rparr>)
     = (Inr None, running_state\<lparr>app_config_file_modified := 20,
        monitored_files := [(''a.py'', 5), (''b.py'', 5), (''helper.py'', 6)],
        trace := [ReadApp ''helper.py'' False]\<rparr>)"
    by (simp add: read_app_def load_app_def get_app_from_file_def is_global_module_def
          helper_module running_state_def plain_app_def Let_def
          basename_def splitext_root_def)
  show ?thesis
    by (simp add: check_app_updates_def en plan_updates_bad_document_new_module
          terminate_phase_def ld init_phase_def del: load_modules.simps)
qed

text \<open>
  Claim C4, as stated, fails in three ways.  When \<open>read_config\<close> raises, no plan
  is returned and the watermark moves from 10 to 20.  The cycle is not
  aborted: \<open>check_app_updates\<close> goes on without a plan, records the new module
  \<^verbatim>\<open>helper.py\<close> and reads it.  And when the exception is raised after the loop
  over the stored configuration, the diff is applied in part: no plan is
  returned, \<open>A\<close> was terminated and has left the registry, and the stored
  configuration still lists \<open>A\<close>.
\<close>

theorem config_failure_changes_state:
  "read_config env_bad_document = Inl TypeError \<and>
   fst (check_config True env_bad_document running_state) = None \<and>
   app_config_file_modified running_state = 10 \<and>
   app_config_file_modified (snd (check_config True env_bad_document running_state)) = 20 \<and>
   read_config env_bad_document_new_module = Inl TypeError \<and>
   fst (check_config True env_bad_document_new_module running_state) = None \<and>
   fst (check_app_updates None False env_bad_document_new_module running_state) = Inr () \<and>
   monitored_files running_state = [(''a.py'', 5), (''b.py'', 5)] \<and>
   monitored_files (snd (check_app_updates None False env_bad_document_new_module running_state)) =
     [(''a.py'', 5), (''b.py'', 5), (''helper.py'', 6)] \<and>
   trace (snd (check_app_updates None False env_bad_document_new_module running_state)) =
     [ReadApp ''helper.py'' False] \<and>
   read_config env_bad_entry =
     Inr (Some [(''B'', plain_app ''b'' (Some [''A''])), (''global_modules'', Scalar 5)]) \<and>
   fst (check_config True env_bad_entry running_state) = None \<and>
   trace (snd (check_config True env_bad_entry running_state)) = [TermObject ''A''] \<and>
   map fst (objects running_state) = [''A'', ''B''] \<and>
   map fst (objects (snd (check_config True env_bad_entry running_state))) = [''B''] \<and>
   map fst (app_config (snd (check_config True env_bad_entry running_state))) = [''A'', ''B'']"
proof -
  have a: "read_config env_bad_document = Inl TypeError \<and>
   fst (check_config True env_bad_document running_state) = None \<and>
   app_config_file_modified running_state = 10 \<and>
   app_config_file_modified (snd (check_config True env_bad_document running_state)) = 20"
    by (simp add: check_config_def check_later_app_configs_def read_config_def
        env_bad_document_def basic_env_def running_state_def Let_def)
  have b: "read_config env_bad_document_new_module = Inl TypeError"
    by (simp add: read_config_def env_bad_document_new_module_def basic_env_def)
  have c: "monitored_files running_state = [(''a.py'', 5), (''b.py'', 5)]"
    "map fst (objects running_state) = [''A'', ''B'']"
    by (simp_all add: running_state_def)
  have d: "map fst (app_config (running_state\<lparr>app_config_file_modified := 20,
              objects := [(''B'', \<lparr>pin_app = False, obj_pin_thread = -1\<rparr>)],
              trace := [TermObject ''A'']\<rparr>)) = [''A'', ''B'']"
    by (simp add: running_state_def)
  show ?thesis
    using a b c d
    by (simp add: check_config_bad_document_new_module check_app_updates_bad_document_new_module
          read_config_bad_entry check_config_bad_entry)
qed


subsection \<open>The two passes of the initialize phase\<close>



























subsection \<open>A cycle without a plan\<close>

lemma apps_per_module_ok:
  "apps_per_module cfg m = Inr ns \<Longrightarrow> \<exists>ns'. apps_per_module cfg m' = Inr ns'"
proof (induction cfg arbitrary: ns)
  case Nil
  show ?case by simp
next
  case (Cons p cfg)
  obtain app e where p: "p = (app, e)" by (cases p)
  show ?case
  proof (cases "app \<noteq> ''global_modules''")
    case True
    from Cons.prems p True obtain mm where mm: "module_of e = Inr mm"
      by (cases "module_of e") simp_all
    from Cons.prems p True mm obtain ns0 where "apps_per_module cfg m = Inr ns0"
      by (cases "apps_per_module cfg m") simp_all
    from Cons.IH [OF this] obtain ns1 where "apps_per_module cfg m' = Inr ns1" by blast
    with p True mm show ?thesis by simp
  next
    case False
    with Cons.prems p have "apps_per_module cfg m = Inr ns" by simp
    from Cons.IH [OF this] obtain ns1 where "apps_per_module cfg m' = Inr ns1" by blast
    with p False show ?thesis by simp
  qed
qed

lemma mark_None: "mark to_term to_init names None = (if names = [] then Inr None else Inl TypeError)"
  by (cases names) simp_all

lemma term_deleted_None:
  assumes ok: "\<And>m. \<exists>ns. apps_per_module cfg m = Inr ns"
  shows "app_config st = cfg \<Longrightarrow>
         \<exists>st'. term_deleted paths None st =
           ((if \<exists>f \<in> set paths. apps_per_module cfg (get_module_from_path f) \<noteq> Inr []
             then Inl TypeError else Inr None), st') \<and> app_config st' = cfg"
proof (induction paths arbitrary: st)
  case Nil
  then show ?case by simp
next
  case (Cons f paths)
  let ?st = "st\<lparr>monitored_files := AList.delete f (monitored_files st)\<rparr>"
  have c: "app_config ?st = cfg" using Cons.prems by simp
  from ok obtain ns where ns: "apps_per_module cfg (get_module_from_path f) = Inr ns" by blast
  show ?case
  proof (cases "ns = []")
    case True
    from Cons.IH [OF c] obtain st' where
      "term_deleted paths None ?st =
           ((if \<exists>f \<in> set paths. apps_per_module cfg (get_module_from_path f) \<noteq> Inr []
             then Inl TypeError else Inr None), st')" "app_config st' = cfg" by blast
    with ns True c show ?thesis by (simp add: Let_def mark_None)
  next
    case False
    with ns c have "term_deleted (f # paths) None st = (Inl TypeError, ?st)"
      by (simp add: Let_def mark_None)
    with ns False c show ?thesis by simp
  qed
qed

lemma global_dependencies_of_error: "global_dependencies_of e = Inl err \<Longrightarrow> err = TypeError"
  by (cases e) (auto split: if_splits)

lemma apps_per_global_module_error:
  "apps_per_global_module cfg m = Inl err \<Longrightarrow> err = TypeError"
proof (induction cfg)
  case Nil
  then show ?case by simp
next
  case (Cons p cfg)
  obtain app e where p: "p = (app, e)" by (cases p)
  show ?case
  proof (cases "global_dependencies_of e")
    case (Inl err')
    with Cons.prems p have "err = err'" by simp
    with Inl show ?thesis by (simp add: global_dependencies_of_error)
  next
    case (Inr gms)
    with Cons.prems p have "apps_per_global_module cfg m = Inl err"
      by (cases "apps_per_global_module cfg m") simp_all
    then show ?thesis by (rule Cons.IH)
  qed
qed

lemma mark_global_None:
  "mark_global cfg m reload gms None = Inr None \<or> mark_global cfg m reload gms None = Inl TypeError"
proof (induction gms)
  case Nil
  show ?case by simp
next
  case (Cons gm gms)
  show ?case
  proof (cases "gm = m")
    case True
    show ?thesis
    proof (cases "apps_per_global_module cfg gm")
      case (Inl err)
      with apps_per_global_module_error [OF Inl] True show ?thesis by simp
    next
      case (Inr names)
      with True Cons.IH show ?thesis by (cases "names = []") (simp_all add: mark_None)
    qed
  next
    case False
    with Cons.IH show ?thesis by simp
  qed
qed

lemma mark_modules_None:
  assumes ok: "\<And>m. \<exists>ns. apps_per_module cfg m = Inr ns"
  shows "(mark_modules cfg mods None = Inr None \<or> mark_modules cfg mods None = Inl TypeError) \<and>
         ((\<exists>f \<in> fst ` set mods. apps_per_module cfg (get_module_from_path f) \<noteq> Inr []) \<longrightarrow>
            mark_modules cfg mods None = Inl TypeError)"
proof (induction mods)
  case Nil
  show ?case by simp
next
  case (Cons p mods)
  obtain f reload where p: "p = (f, reload)" by (cases p)
  from ok obtain ns where ns: "apps_per_module cfg (get_module_from_path f) = Inr ns" by blast
  show ?case
  proof (cases "ns = []")
    case False
    with ns p have "mark_modules cfg (p # mods) None = Inl TypeError" by (simp add: mark_None)
    then show ?thesis by simp
  next
    case True
    from mark_global_None [of cfg "get_module_from_path f" reload "global_module_names cfg"]
    show ?thesis
    proof
      assume g: "mark_global cfg (get_module_from_path f) reload (global_module_names cfg) None = Inr None"
      with ns True p have "mark_modules cfg (p # mods) None = mark_modules cfg mods None"
        by (simp add: mark_None)
      with Cons.IH ns True p show ?thesis by auto
    next
      assume g: "mark_global cfg (get_module_from_path f) reload (global_module_names cfg) None = Inl TypeError"
      with ns True p have "mark_modules cfg (p # mods) None = Inl TypeError"
        by (simp add: mark_None)
      then show ?thesis by simp
    qed
  qed
qed

text \<open>
  Claim C10, as the code has it.  \<open>check_config\<close> returned \<^verbatim>\<open>None\<close>, and a code
  module that was deleted, added or modified in the same cycle is the module
  of at least one configured app.  Then \<open>check_app_updates\<close> ends with an
  uncaught \<open>TypeError\<close>: the assignment into \<^verbatim>\<open>apps["term"]\<close> or \<^verbatim>\<open>apps["init"]\<close>
  takes a subscript of \<^verbatim>\<open>None\<close>.
\<close>

theorem none_plan_type_error:
  assumes en: "apps_enabled env"
    and none: "check_config True env st = (None, st1)"
    and scan: "scan_modules (init_py env) (py_files env) ([], monitored_files st1) = (mods, monitored)"
    and changed: "changed \<in> set (deleted_modules exit (py_files env) monitored) \<or>
                  changed \<in> fst ` set mods"
    and mapped: "apps_per_module (app_config st1) (get_module_from_path changed) = Inr (app # names)"
  shows "fst (check_app_updates restarted exit env st) = Inl TypeError"
proof -
  let ?cfg = "app_config st1"
  let ?D = "deleted_modules exit (py_files env) monitored"
  let ?st = "st1\<lparr>monitored_files := monitored\<rparr>"
  have ok: "\<exists>ns. apps_per_module ?cfg m = Inr ns" for m
    by (rule apps_per_module_ok [OF mapped])
  have c: "app_config ?st = ?cfg" by simp
  from term_deleted_None [of ?cfg ?st ?D, OF ok c] obtain st2 where
    td: "term_deleted ?D None ?st =
           ((if \<exists>f \<in> set ?D. apps_per_module ?cfg (get_module_from_path f) \<noteq> Inr []
             then Inl TypeError else Inr None), st2)"
    and c2: "app_config st2 = ?cfg" by blast
  have "fst (plan_updates restarted exit env st) = Inl TypeError"
  proof (cases "\<exists>f \<in> set ?D. apps_per_module ?cfg (get_module_from_path f) \<noteq> Inr []")
    case True
    with td have "term_deleted ?D None ?st = (Inl TypeError, st2)" by simp
    with none scan show ?thesis by (simp add: plan_updates_def)
  next
    case False
    with td have td': "term_deleted ?D None ?st = (Inr None, st2)" by simp
    from False mapped have "changed \<notin> set ?D" by auto
    with changed have "changed \<in> fst ` set mods" by simp
    with mapped have "\<exists>f \<in> fst ` set mods. apps_per_module ?cfg (get_module_from_path f) \<noteq> Inr []"
      by (intro bexI [of _ changed]) simp_all
    with mark_modules_None [of ?cfg mods, OF ok] have "mark_modules ?cfg mods None = Inl TypeError"
      by blast
    with none scan td' c2 show ?thesis by (simp add: plan_updates_def)
  qed
  then obtain st' where "plan_updates restarted exit env st = (Inl TypeError, st')"
    by (cases "plan_updates restarted exit env st") auto
  with en show ?thesis by (simp add: check_app_updates_def)
qed


text \<open>
  An example: the configuration documents are gone, so that \<open>read_config\<close>
  returns \<^verbatim>\<open>None\<close>, and the module of app \<open>A\<close> was modified.
\<close>

lemma module_path_a: "get_module_from_path ''a.py'' = ''a''"
  by (simp add: get_module_from_path_def basename_def splitext_root_def)

lemma module_path_b: "get_module_from_path ''b.py'' = ''b''"
  by (simp add: get_module_from_path_def basename_def splitext_root_def)

lemma module_path_helper: "get_module_from_path ''helper.py'' = ''helper''"
  by (simp add: get_module_from_path_def basename_def splitext_root_def)

definition documents_gone :: state where
  "documents_gone = running_state\<lparr>app_config_files := Some []\<rparr>"

definition env_module_modified :: env where
  "env_module_modified = basic_env [] [(''a.py'', Some 7), (''b.py'', Some 5)]"

definition env_module_added :: env where
  "env_module_added = basic_env [] [(''a.py'', Some 5), (''b.py'', Some 5), (''helper.py'', Some 6)]"

lemma check_config_module_modified:
  "check_config True env_module_modified running_state = (None, documents_gone)"
  by (simp add: check_config_def check_later_app_configs_def read_config_def
        env_module_modified_def basic_env_def running_state_def documents_gone_def Let_def)

lemma check_config_module_added:
  "check_config True env_module_added running_state = (None, documents_gone)"
  by (simp add: check_config_def check_later_app_configs_def read_config_def
        env_module_added_def basic_env_def running_state_def documents_gone_def Let_def)

theorem none_plan_type_error_witness:
  "apps_enabled env_module_modified \<and>
   check_config True env_module_modified running_state = (None, documents_gone) \<and>
   scan_modules (init_py env_module_modified) (py_files env_module_modified)
      ([], monitored_files documents_gone) =
     ([(''a.py'', True)], [(''a.py'', 7), (''b.py'', 5)]) \<and>
   ''a.py'' \<in> fst ` set [(''a.py'', True)] \<and>
   apps_per_module (app_config documents_gone) (get_module_from_path ''a.py'') = Inr [''A''] \<and>
   fst (check_app_updates None False env_module_modified running_state) = Inl TypeError"
proof -
  have h1: "apps_enabled env_module_modified" by (simp add: env_module_modified_def basic_env_def)
  have h3: "scan_modules (init_py env_module_modified) (py_files env_module_modified)
      ([], monitored_files documents_gone) =
     ([(''a.py'', True)], [(''a.py'', 7), (''b.py'', 5)])"
    by (simp add: env_module_modified_def basic_env_def documents_gone_def running_state_def)
  have h4: "''a.py'' \<in> fst ` set [(''a.py'', True)]" by simp
  have h4': "''a.py'' \<in> set (deleted_modules False (py_files env_module_modified)
                [(''a.py'', 7), (''b.py'', 5)]) \<or> ''a.py'' \<in> fst ` set [(''a.py'', True)]"
    using h4 by (rule disjI2)
  have h5: "apps_per_module (app_config documents_gone) (get_module_from_path ''a.py'') = Inr [''A'']"
    by (simp add: module_path_a documents_gone_def running_state_def plain_app_def)
  note concl = none_plan_type_error [OF h1 check_config_module_modified h3 h4' h5, of None]
  show ?thesis
    by (intro conjI) (rule h1 check_config_module_modified h3 h4 h5 concl)+
qed

text \<open>
  Claim C10, as stated, fails at this input: \<open>check_config\<close> returns \<^verbatim>\<open>None\<close>
  and the new module \<^verbatim>\<open>helper.py\<close> is found in the same cycle.  No app has it
  as its module, the configuration has no entry \<^verbatim>\<open>global_modules\<close> and no plugin
  was restarted, so no assignment into the plan is made and the cycle
  completes.
\<close>

lemma plan_updates_module_added:
  "plan_updates None False env_module_added running_state =
     (Inr (None, [(''helper.py'', False)]),
      documents_gone\<lparr>monitored_files := [(''a.py'', 5), (''b.py'', 5), (''helper.py'', 6)]\<rparr>)"
proof -
  have sc: "scan_modules (init_py env_module_added) (py_files env_module_added)
      ([], monitored_files documents_gone) =
     ([(''helper.py'', False)], [(''a.py'', 5), (''b.py'', 5), (''helper.py'', 6)])"
    by (simp add: env_module_added_def basic_env_def documents_gone_def running_state_def)
  have dm: "deleted_modules False (py_files env_module_added)
              [(''a.py'', 5), (''b.py'', 5), (''helper.py'', 6)] = []"
    by (simp add: deleted_modules_def env_module_added_def basic_env_def)
  have mm: "mark_modules (app_config documents_gone) [(''helper.py'', False)] None = Inr None"
    by (simp add: module_path_helper documents_gone_def running_state_def plain_app_def
          global_module_names_def)
  show ?thesis
    by (simp add: plan_updates_def check_config_module_added sc dm mm del: mark_modules.simps)
qed

theorem none_plan_module_added_completes:
  "fst (check_config True env_module_added running_state) = None \<and>
   fst (plan_updates None False env_module_added running_state) =
     Inr (None, [(''helper.py'', False)]) \<and>
   fst (check_app_updates None False env_module_added running_state) = Inr ()"
proof -
  have en: "apps_enabled env_module_added" by (simp add: env_module_added_def basic_env_def)
  have ld: "fst (load_modules env_module_added [(''helper.py'', False)] None
     (documents_gone\<lparr>monitored_files := [(''a.py'', 5), (''b.py'', 5), (''helper.py'', 6)]\<rparr>))
     = Inr None"
    by (simp add: read_app_def load_app_def get_app_from_file_def is_global_module_def
          module_path_helper documents_gone_def running_state_def plain_app_def Let_def
          basename_def splitext_root_def)
  then obtain st3 where ld': "load_modules env_module_added [(''helper.py'', False)] None
     (documents_gone\<lparr>monitored_files := [(''a.py'', 5), (''b.py'', 5), (''helper.py'', 6)]\<rparr>)
     = (Inr None, st3)"
    by (metis prod.collapse)
  have "fst (check_app_updates None False env_module_added running_state) = Inr ()"
    by (simp add: check_app_updates_def en plan_updates_module_added terminate_phase_def ld'
          init_phase_def del: load_modules.simps)
  then show ?thesis
    by (simp add: check_config_module_added plan_updates_module_added)
qed

subsection \<open>A module that fails to load\<close>

text \<open>
  When every entry of the configuration is an app with a module, the \<^verbatim>\<open>except\<close>
  clause of the load phase removes from \<^verbatim>\<open>apps["init"]\<close> exactly the apps of the
  module that failed.
\<close>

lemma remove_failed_apps:
  assumes "list_all (\<lambda>(app, e). \<exists>m'. module_of e = Inr m') cfg"
  shows "fst (remove_failed m cfg (Some p) st) =
           Inr (Some (p\<lparr>init_apps :=
                  filter (\<lambda>app. app \<notin> fst ` {(app, e) \<in> set cfg. module_of e = Inr m})
                    (init_apps p)\<rparr>))"
  using assms
proof (induction cfg arbitrary: p st)
  case Nil
  show ?case by simp
next
  case (Cons x cfg)
  obtain app e where x: "x = (app, e)" by (cases x)
  from Cons.prems x obtain m' where m': "module_of e = Inr m'" by auto
  from Cons.prems have rest: "list_all (\<lambda>(app, e). \<exists>m'. module_of e = Inr m') cfg" by simp
  note IH = Cons.IH [OF rest]
  show ?case
  proof (cases "m' = m")
    case False
    then have "{(app, e) \<in> set (x # cfg). module_of e = Inr m} =
               {(app, e) \<in> set cfg. module_of e = Inr m}"
      using x m' by auto
    then show ?thesis using False x m' IH by simp
  next
    case True
    have S: "fst ` {(app, e) \<in> set (x # cfg). module_of e = Inr m} =
               insert app (fst ` {(app, e) \<in> set cfg. module_of e = Inr m})"
      using x m' True by force
    show ?thesis
    proof (cases "app \<in> set (init_apps p)")
      case False
      then have "filter (\<lambda>a. a \<notin> insert app (fst ` {(app, e) \<in> set cfg. module_of e = Inr m}))
                   (init_apps p) =
                 filter (\<lambda>a. a \<notin> fst ` {(app, e) \<in> set cfg. module_of e = Inr m}) (init_apps p)"
        by (intro filter_cong) auto
      then show ?thesis using False x m' True IH S by simp
    next
      case in_init: True
      then have ne: "init_apps p \<noteq> []" by auto
      have "filter (\<lambda>a. a \<notin> insert app (fst ` {(app, e) \<in> set cfg. module_of e = Inr m}))
                   (init_apps p) =
            filter (\<lambda>a. a \<notin> fst ` {(app, e) \<in> set cfg. module_of e = Inr m})
                   (removeAll app (init_apps p))"
        by (induction "init_apps p" arbitrary: p)
           (auto simp: removeAll_filter_not_eq intro: filter_cong)
      then show ?thesis using in_init ne x m' True IH S by simp
    qed
  qed
qed

text \<open>
  An example with the entry \<^verbatim>\<open>global_modules\<close>: app \<open>A\<close> is running, its module
  \<^verbatim>\<open>a.py\<close> was modified and the reload fails.
\<close>

definition global_modules_state :: state where
  "global_modules_state = \<lparr>app_config = [(''global_modules'', GlobalModules [''helpers'']),
                                          (''A'', plain_app ''a'' None)],
     app_config_file_modified = 10,
     app_config_files = Some [''apps.yaml''],
     monitored_files = [(''a.py'', 5)],
     modules = [''a''],
     objects = [(''A'', \<lparr>pin_app = False, obj_pin_thread = -1\<rparr>)],
     trace = []\<rparr>"

definition env_reload_fails :: env where
  "env_reload_fails =
     (basic_env [(''apps.yaml'', 10, Dict [(''global_modules'', Body (GlobalModules [''helpers''])),
                                           (''A'', Body (plain_app ''a'' None))])]
                [(''a.py'', Some 7)])\<lparr>loads := (\<lambda>m. m \<noteq> ''a'')\<rparr>"

definition reload_planned :: state where
  "reload_planned = global_modules_state\<lparr>monitored_files := [(''a.py'', 7)]\<rparr>"

lemma plan_updates_reload_fails:
  "plan_updates None False env_reload_fails global_modules_state =
     (Inr (Some \<lparr>init_apps = [''A''], term_apps = [''A''], total_apps = 2\<rparr>, [(''a.py'', True)]),
      reload_planned)"
proof -
  have cc: "check_config True env_reload_fails global_modules_state =
     (Some \<lparr>init_apps = [], term_apps = [], total_apps = 2\<rparr>, global_modules_state)"
    by (simp add: check_config_def check_later_app_configs_def finish_check_config_def
          env_reload_fails_def basic_env_def global_modules_state_def Let_def)
  have sc: "scan_modules (init_py env_reload_fails) (py_files env_reload_fails)
      ([], monitored_files global_modules_state) = ([(''a.py'', True)], [(''a.py'', 7)])"
    by (simp add: env_reload_fails_def basic_env_def global_modules_state_def)
  have dm: "deleted_modules False (py_files env_reload_fails) [(''a.py'', 7)] = []"
    by (simp add: deleted_modules_def env_reload_fails_def basic_env_def)
  have mm: "mark_modules (app_config global_modules_state) [(''a.py'', True)]
              (Some \<lparr>init_apps = [], term_apps = [], total_apps = 2\<rparr>) =
            Inr (Some \<lparr>init_apps = [''A''], term_apps = [''A''], total_apps = 2\<rparr>)"
    by (simp add: module_path_a global_modules_state_def plain_app_def global_module_names_def
          dict_add_def)
  show ?thesis
    by (simp add: plan_updates_def cc sc dm mm reload_planned_def del: mark_modules.simps)
qed


definition gm_config :: config where
  "gm_config = [(''global_modules'', GlobalModules [''helpers'']), (''A'', plain_app ''a'' None)]"

lemma gm_config_deplist: "collect_deplist gm_config [''A''] [] = Inr [''A'']"
  by (simp add: gm_config_def plain_app_def)

lemma gm_config_deps:
  "build_deps gm_config gm_config = Inr ([(''global_modules'', []), (''A'', [])], [])"
  by (simp add: gm_config_def plain_app_def)

lemma gm_config_sort:
  "topological_sort [(''global_modules'', []), (''A'', [])] = ([''global_modules'', ''A''], None)"
proof -
  have p1: "scan_pending [(''global_modules'', {}), (''A'', {})] ([], [], []) =
              ([''global_modules'', ''A''], [], [''global_modules'', ''A''])"
    by (simp add: Let_def)
  show ?thesis
    unfolding topological_sort_def
    by (simp add: topological_sort_loop_pass [OF _ p1] topological_sort_loop_Nil)
qed

lemma gm_config_prios:
  "assigned_priorities gm_config = Inr [(''global_modules'', 50), (''A'', 50)]"
proof -
  have "assign_prios gm_config [''global_modules'', ''A''] ([], 501 / 10) =
          Inr ([(''global_modules'', 50), (''A'', 50)], 501 / 10)"
    by (simp add: gm_config_def plain_app_def)
  then show ?thesis
    by (simp only: assigned_priorities_def gm_config_deps gm_config_sort sum.case prod.case)
qed

lemma gm_config_result: "get_app_deps_and_prios gm_config [''A''] = Inr [(''A'', 50)]"
  by (simp only: get_app_deps_and_prios_def gm_config_deplist gm_config_prios sum.case) simp

definition reload_terminated :: state where
  "reload_terminated = reload_planned\<lparr>objects := [], trace := [TermObject ''A'']\<rparr>"

lemma terminate_phase_reload_fails:
  "terminate_phase (Some \<lparr>init_apps = [''A''], term_apps = [''A''], total_apps = 2\<rparr>)
     reload_planned = (Inr (), reload_terminated)"
proof -
  have cfg: "app_config reload_planned = gm_config"
    by (simp add: reload_planned_def global_modules_state_def gm_config_def)
  have "terminate_phase (Some \<lparr>init_apps = [''A''], term_apps = [''A''], total_apps = 2\<rparr>)
     reload_planned = (Inr (), term_object ''A'' reload_planned)"
    by (simp add: terminate_phase_def cfg gm_config_result sorted_apps_def)
  also have "term_object ''A'' reload_planned = reload_terminated"
    by (simp add: term_object_def reload_terminated_def reload_planned_def
          global_modules_state_def)
  finally show ?thesis .
qed

lemma read_app_reload_fails:
  "read_app env_reload_fails ''a.py'' True reload_terminated =
     (Inl ImportError, reload_terminated\<lparr>trace := [TermObject ''A'', ReadApp ''a.py'' True]\<rparr>)"
  by (simp add: read_app_def Let_def basename_def splitext_root_def env_reload_fails_def
        basic_env_def reload_terminated_def reload_planned_def global_modules_state_def)

lemma remove_failed_global_modules:
  "remove_failed m ((''global_modules'', GlobalModules gl) # rest) apps st = (Inl TypeError, st)"
  by simp

text \<open>
  Claim C5 on this input.  The modified module puts \<open>A\<close> into both sets of the
  plan, \<open>A\<close> is terminated, and \<open>read_app\<close> raises.  The \<^verbatim>\<open>except\<close> clause then takes
  the subscript \<^verbatim>\<open>self.app_config["global_modules"]["module"]\<close> of a list, which
  raises \<open>TypeError\<close> out of \<open>check_app_updates\<close>: \<open>A\<close> is not removed from the
  initialize set with a warning and the cycle does not proceed.
\<close>

theorem failed_reload_with_global_modules:
  "fst (plan_updates None False env_reload_fails global_modules_state) =
     Inr (Some \<lparr>init_apps = [''A''], term_apps = [''A''], total_apps = 2\<rparr>, [(''a.py'', True)]) \<and>
   fst (read_app env_reload_fails ''a.py'' True reload_terminated) = Inl ImportError \<and>
   check_app_updates None False env_reload_fails global_modules_state =
     (Inl TypeError, reload_terminated\<lparr>trace := [TermObject ''A'', ReadApp ''a.py'' True]\<rparr>)"
proof -
  have en: "apps_enabled env_reload_fails" by (simp add: env_reload_fails_def basic_env_def)
  have cfg: "app_config (reload_terminated\<lparr>trace := [TermObject ''A'', ReadApp ''a.py'' True]\<rparr>)
               = gm_config"
    by (simp add: reload_terminated_def reload_planned_def global_modules_state_def gm_config_def)
  have ld: "load_modules env_reload_fails [(''a.py'', True)]
              (Some \<lparr>init_apps = [''A''], term_apps = [''A''], total_apps = 2\<rparr>) reload_terminated =
            (Inl TypeError, reload_terminated\<lparr>trace := [TermObject ''A'', ReadApp ''a.py'' True]\<rparr>)"
    by (simp add: read_app_reload_fails cfg gm_config_def)
  have "check_app_updates None False env_reload_fails global_modules_state =
     (Inl TypeError, reload_terminated\<lparr>trace := [TermObject ''A'', ReadApp ''a.py'' True]\<rparr>)"
    by (simp add: check_app_updates_def en plan_updates_reload_fails terminate_phase_reload_fails
          ld del: load_modules.simps)
  then show ?thesis
    by (simp add: plan_updates_reload_fails read_app_reload_fails)
qed

subsection \<open>A second cycle with nothing changed\<close>

text \<open>
  What \<open>check_config\<close> records about the configuration documents of the app
  directory, whatever it returns: the listing of the documents, and a
  watermark that no document is newer than.  From such a state the next
  \<open>check_config\<close> finds nothing to read.
\<close>

lemma scan_yaml_unchanged:
  "\<forall>(file, ts, doc) \<in> set ys. ts \<le> l \<Longrightarrow>
   scan_yaml ys l (listing, later, l) = (listing @ map fst ys, later, l)"
  by (induction ys arbitrary: listing) auto

lemma check_config_records:
  assumes dir: "config_file env = None"
    and cc: "check_config add_threads env st = (apps, st1)"
  shows "app_config_files st1 = Some (map fst (yaml_files env))"
    and "app_config_file_modified st1 =
           Max (insert (app_config_file_modified st) ((\<lambda>(file, ts, doc). ts) ` set (yaml_files env)))"
    and "monitored_files st1 = monitored_files st"
proof -
  obtain listing later newest where
    sy: "scan_yaml (yaml_files env) (app_config_file_modified st) ([], [], app_config_file_modified st)
           = (listing, later, newest)"
    by (cases "scan_yaml (yaml_files env) (app_config_file_modified st)
                 ([], [], app_config_file_modified st)") auto
  from scan_yaml_result [OF sy] have l: "listing = map fst (yaml_files env)"
    and n: "newest = Max (insert (app_config_file_modified st)
                       ((\<lambda>(file, ts, doc). ts) ` set (yaml_files env)))"
    by simp_all
  obtain lf sta where cl: "check_later_app_configs env st (app_config_file_modified st) = (lf, sta)"
    by (cases "check_later_app_configs env st (app_config_file_modified st)") auto
  from cl dir sy have la: "latest lf = newest" and sta: "sta = st\<lparr>app_config_files := Some listing\<rparr>"
    and del: "deleted lf \<noteq> None"
    by (auto simp: check_later_app_configs_def Let_def)
  define st2 where "st2 = sta\<lparr>app_config_file_modified := latest lf\<rparr>"
  have st2: "app_config_files st2 = Some listing" "app_config_file_modified st2 = newest"
    "monitored_files st2 = monitored_files st"
    by (simp_all add: st2_def sta la)
  have goal: "app_config_files st1 = Some listing \<and> app_config_file_modified st1 = newest \<and>
    monitored_files st1 = monitored_files st"
  proof (cases "files lf \<noteq> [] \<or> deleted lf \<noteq> Some []")
    case False
    with cc cl have "finish_check_config add_threads env st2 [] [] (length (app_config st)) = (apps, st1)"
      by (simp add: check_config_def st2_def Let_def)
    from finish_check_config_result [OF this] st2 show ?thesis by simp
  next
    case True
    show ?thesis
    proof (cases "read_config env")
      case (Inl err)
      with cc cl True have "st1 = st2" by (simp add: check_config_def st2_def Let_def)
      with st2 show ?thesis by simp
    next
      case (Inr nc)
      show ?thesis
      proof (cases nc)
        case None
        with Inr cc cl True have "st1 = st2" by (simp add: check_config_def st2_def Let_def)
        with st2 show ?thesis by simp
      next
        case (Some new_config)
        from del obtain gone where gone: "deleted lf = Some gone" by auto
        obtain t i st3 where de: "diff_existing new_config (app_config st2) ([], [], st2) = (t, i, st3)"
          by (cases "diff_existing new_config (app_config st2) ([], [], st2)") auto
        from diff_existing_result [OF de] st2 have st3: "app_config_files st3 = Some listing"
          "app_config_file_modified st3 = newest" "monitored_files st3 = monitored_files st"
          by simp_all
        show ?thesis
        proof (cases "diff_added (app_config st3) new_config i")
          case (Inl err)
          with Some Inr cc cl True gone de have "st1 = st3"
            by (simp add: check_config_def st2_def Let_def)
          with st3 show ?thesis by simp
        next
          case (Inr i')
          with Some \<open>read_config env = Inr nc\<close> cc cl True gone de
          have "finish_check_config add_threads env (st3\<lparr>app_config := new_config\<rparr>) t i'
                  (length new_config) = (apps, st1)"
            by (simp add: check_config_def st2_def Let_def)
          from finish_check_config_result [OF this] st3 show ?thesis by simp
        qed
      qed
    qed
  qed
  from goal l n show "app_config_files st1 = Some (map fst (yaml_files env))"
    and "app_config_file_modified st1 =
           Max (insert (app_config_file_modified st) ((\<lambda>(file, ts, doc). ts) ` set (yaml_files env)))"
    and "monitored_files st1 = monitored_files st"
    by simp_all
qed

lemma check_config_unchanged:
  assumes dir: "config_file env = None"
    and listing: "app_config_files st = Some (map fst (yaml_files env))"
    and old: "\<forall>(file, ts, doc) \<in> set (yaml_files env). ts \<le> app_config_file_modified st"
  shows "check_config add_threads env st =
           finish_check_config add_threads env st [] [] (length (app_config st))"
proof -
  have sy: "scan_yaml (yaml_files env) (app_config_file_modified st)
              ([], [], app_config_file_modified st) =
            (map fst (yaml_files env), [], app_config_file_modified st)"
    using scan_yaml_unchanged [OF old, of "[]" "[]"] by simp
  have same: "st\<lparr>app_config_files := Some (map fst (yaml_files env))\<rparr> = st"
    using listing by simp
  have cl: "check_later_app_configs env st (app_config_file_modified st) =
          (\<lparr>latest = app_config_file_modified st, files = [], deleted = Some []\<rparr>, st)"
    by (simp add: check_later_app_configs_def dir sy listing Let_def same)
  show ?thesis
    by (simp add: check_config_def cl Let_def)
qed


text \<open>
  The monitored files are up to date when every readable module found, other
  than \<^verbatim>\<open>__init__.py\<close>, has a recorded time that is not older than its
  modification time.  The scan of the modules leaves them so, and finds no
  module to load when they are so already.
\<close>

definition up_to_date :: "path \<Rightarrow> (path \<times> timestamp option) list \<Rightarrow> (path \<times> timestamp) list \<Rightarrow> bool"
where
  "up_to_date init_file found monitored =
     (\<forall>(file, mtime) \<in> set found. \<forall>modified. file \<noteq> init_file \<and> mtime = Some modified \<longrightarrow>
        (\<exists>recorded. map_of monitored file = Some recorded \<and> modified \<le> recorded))"

lemma up_to_date_Nil: "up_to_date init_file [] monitored"
  by (simp add: up_to_date_def)

lemma up_to_date_Cons:
  "up_to_date init_file ((file, mtime) # found) monitored \<longleftrightarrow>
     (\<forall>modified. file \<noteq> init_file \<and> mtime = Some modified \<longrightarrow>
        (\<exists>recorded. map_of monitored file = Some recorded \<and> modified \<le> recorded)) \<and>
     up_to_date init_file found monitored"
  by (simp add: up_to_date_def)

lemma scan_modules_grows:
  "scan_modules init_file found (mods, monitored) = (mods', monitored') \<Longrightarrow>
   map_of monitored f = Some r \<Longrightarrow> \<exists>r'. map_of monitored' f = Some r' \<and> r \<le> r'"
proof (induction found arbitrary: mods monitored r)
  case Nil
  then show ?case by simp
next
  case (Cons x found)
  obtain fl mtime where x: "x = (fl, mtime)" by (cases x)
  show ?case
  proof (cases "fl = init_file \<or> mtime = None")
    case True
    with Cons.prems x have "scan_modules init_file found (mods, monitored) = (mods', monitored')"
      by (auto split: if_splits)
    from Cons.IH [OF this Cons.prems(2)] show ?thesis .
  next
    case False
    then obtain modified where m: "mtime = Some modified" and ni: "fl \<noteq> init_file" by auto
    show ?thesis
    proof (cases "map_of monitored fl")
      case None
      with Cons.prems x m ni have
        sc: "scan_modules init_file found (mods @ [(fl, False)], AList.update fl modified monitored)
               = (mods', monitored')"
        by simp
      from None Cons.prems(2) have "f \<noteq> fl" by auto
      then have "map_of (AList.update fl modified monitored) f = Some r"
        using Cons.prems(2) by (simp add: update_conv')
      from Cons.IH [OF sc this] show ?thesis .
    next
      case (Some recorded)
      show ?thesis
      proof (cases "recorded < modified")
        case False
        with Some Cons.prems x m ni have
          "scan_modules init_file found (mods, monitored) = (mods', monitored')" by simp
        from Cons.IH [OF this Cons.prems(2)] show ?thesis .
      next
        case True
        with Some Cons.prems x m ni have
          sc: "scan_modules init_file found (mods @ [(fl, True)], AList.update fl modified monitored)
                 = (mods', monitored')"
          by simp
        show ?thesis
        proof (cases "f = fl")
          case False
          then have "map_of (AList.update fl modified monitored) f = Some r"
            using Cons.prems(2) by (simp add: update_conv')
          from Cons.IH [OF sc this] show ?thesis .
        next
          case eq: True
          have "map_of (AList.update fl modified monitored) f = Some modified"
            using eq by (simp add: update_conv')
          from Cons.IH [OF sc this] obtain r' where
            "map_of monitored' f = Some r'" "modified \<le> r'" by auto
          moreover have "r \<le> modified" using True Some Cons.prems(2) eq by simp
          ultimately show ?thesis by auto
        qed
      qed
    qed
  qed
qed

lemma scan_modules_covers:
  "scan_modules init_file found (mods, monitored) = (mods', monitored') \<Longrightarrow>
   up_to_date init_file found monitored'"
proof (induction found arbitrary: mods monitored)
  case Nil
  show ?case by (rule up_to_date_Nil)
next
  case (Cons x found)
  obtain fl mtime where x: "x = (fl, mtime)" by (cases x)
  show ?case
  proof (cases "fl = init_file \<or> mtime = None")
    case True
    with Cons.prems x have "scan_modules init_file found (mods, monitored) = (mods', monitored')"
      by (auto split: if_splits)
    from Cons.IH [OF this] True x show ?thesis by (auto simp: up_to_date_Cons)
  next
    case False
    then obtain modified where m: "mtime = Some modified" and ni: "fl \<noteq> init_file" by auto
    have "\<exists>mods1 monitored1 recorded.
            scan_modules init_file found (mods1, monitored1) = (mods', monitored') \<and>
            map_of monitored1 fl = Some recorded \<and> modified \<le> recorded"
    proof (cases "map_of monitored fl")
      case None
      with Cons.prems x m ni have
        "scan_modules init_file found (mods @ [(fl, False)], AList.update fl modified monitored)
               = (mods', monitored')"
        by simp
      moreover have "map_of (AList.update fl modified monitored) fl = Some modified"
        by (simp add: update_conv')
      ultimately show ?thesis by blast
    next
      case (Some recorded)
      show ?thesis
      proof (cases "recorded < modified")
        case False
        with Some Cons.prems x m ni have
          "scan_modules init_file found (mods, monitored) = (mods', monitored')" by simp
        moreover have "modified \<le> recorded" using False by simp
        ultimately show ?thesis using Some by blast
      next
        case True
        with Some Cons.prems x m ni have
          "scan_modules init_file found (mods @ [(fl, True)], AList.update fl modified monitored)
                 = (mods', monitored')"
          by simp
        moreover have "map_of (AList.update fl modified monitored) fl = Some modified"
          by (simp add: update_conv')
        ultimately show ?thesis by blast
      qed
    qed
    then obtain mods1 monitored1 recorded where
      sc: "scan_modules init_file found (mods1, monitored1) = (mods', monitored')"
      and rec: "map_of monitored1 fl = Some recorded" and le: "modified \<le> recorded"
      by blast
    from scan_modules_grows [OF sc rec] obtain r' where
      "map_of monitored' fl = Some r'" "recorded \<le> r'" by auto
    with le have "\<exists>r. map_of monitored' fl = Some r \<and> modified \<le> r" by auto
    with Cons.IH [OF sc] x m show ?thesis by (simp add: up_to_date_Cons)
  qed
qed

lemma scan_modules_unchanged:
  "up_to_date init_file found monitored \<Longrightarrow>
   scan_modules init_file found (mods, monitored) = (mods, monitored)"
proof (induction found)
  case Nil
  show ?case by simp
next
  case (Cons x found)
  obtain fl mtime where x: "x = (fl, mtime)" by (cases x)
  from Cons.prems x have rest: "up_to_date init_file found monitored"
    and this_file: "\<And>modified. fl \<noteq> init_file \<Longrightarrow> mtime = Some modified \<Longrightarrow>
        \<exists>recorded. map_of monitored fl = Some recorded \<and> modified \<le> recorded"
    by (simp_all add: up_to_date_Cons)
  show ?case
  proof (cases "fl = init_file \<or> mtime = None")
    case True
    with Cons.IH [OF rest] x show ?thesis by auto
  next
    case False
    then obtain modified where m: "mtime = Some modified" and ni: "fl \<noteq> init_file" by auto
    from this_file [OF ni m] obtain recorded where
      "map_of monitored fl = Some recorded" "modified \<le> recorded" by auto
    with Cons.IH [OF rest] x m ni show ?thesis by simp
  qed
qed

lemma term_deleted_state:
  "term_deleted deleted_files apps st = (Inr apps', st') \<Longrightarrow>
   st' = st\<lparr>monitored_files := monitored_files st'\<rparr> \<and>
   (\<forall>f. map_of (monitored_files st') f =
          (if f \<in> set deleted_files then None else map_of (monitored_files st) f))"
proof (induction deleted_files arbitrary: apps st)
  case Nil
  then show ?case by simp
next
  case (Cons fl rest)
  let ?st = "st\<lparr>monitored_files := AList.delete fl (monitored_files st)\<rparr>"
  from Cons.prems obtain apps1 where
    "term_deleted rest apps1 ?st = (Inr apps', st')"
    by (auto simp: Let_def split: sum.splits)
  from Cons.IH [OF this] have a: "st' = ?st\<lparr>monitored_files := monitored_files st'\<rparr>"
    and b: "\<And>f. map_of (monitored_files st') f =
          (if f \<in> set rest then None else map_of (monitored_files ?st) f)"
    by auto
  from a have "st' = st\<lparr>monitored_files := monitored_files st'\<rparr>" by simp
  moreover have "\<And>f. map_of (monitored_files st') f =
          (if f \<in> set (fl # rest) then None else map_of (monitored_files st) f)"
    using b by (simp add: delete_conv')
  ultimately show ?case by blast
qed


text \<open>
  With the deprecated configuration file \<open>check_config\<close> returns no plan in
  every cycle.  After a planning that returned, the documents and the modules
  are settled: nothing is newer than what is recorded and no monitored file
  is missing.
\<close>

lemma check_config_deprecated:
  assumes "config_file env = Some (f, ts, content)"
  shows "check_config add_threads env st = (None, st\<lparr>app_config_file_modified := ts\<rparr>)"
  using assms
  by (simp add: check_config_def check_later_app_configs_def read_config_def Let_def
        split: option.splits)

lemma check_config_monitored_files:
  "monitored_files (snd (check_config add_threads env st)) = monitored_files st"
proof (cases "config_file env")
  case None
  obtain apps st1 where cc: "check_config add_threads env st = (apps, st1)"
    by (cases "check_config add_threads env st") auto
  from check_config_records(3) [OF None cc] cc show ?thesis by simp
next
  case (Some c)
  obtain f ts content where "c = (f, ts, content)" by (cases c)
  with Some check_config_deprecated [of env f ts content add_threads st] show ?thesis by simp
qed

definition documents_settled :: "env \<Rightarrow> state \<Rightarrow> bool" where
  "documents_settled env st \<longleftrightarrow>
     app_config_files st = Some (map fst (yaml_files env)) \<and>
     (\<forall>(file, ts, doc) \<in> set (yaml_files env). ts \<le> app_config_file_modified st)"

definition modules_settled :: "env \<Rightarrow> state \<Rightarrow> bool" where
  "modules_settled env st \<longleftrightarrow>
     up_to_date (init_py env) (py_files env) (monitored_files st) \<and>
     fst ` set (monitored_files st) \<subseteq> fst ` set (py_files env)"

lemma deleted_modules_set:
  "set (deleted_modules False found monitored) = fst ` set monitored - fst ` set found"
  by (force simp: deleted_modules_def)

lemma plan_updates_term_deleted:
  assumes pl: "plan_updates restarted exit env st = (Inr (apps, mods), st1)"
  obtains apps0 sta mods0 monitored apps1 where
    "check_config True env st = (apps0, sta)"
    "scan_modules (init_py env) (py_files env) ([], monitored_files sta) = (mods0, monitored)"
    "term_deleted (deleted_modules exit (py_files env) monitored) apps0
       (sta\<lparr>monitored_files := monitored\<rparr>) = (Inr apps1, st1)"
proof -
  obtain apps0 sta where cc: "check_config True env st = (apps0, sta)"
    by (cases "check_config True env st") auto
  obtain mods0 monitored where
    sc: "scan_modules (init_py env) (py_files env) ([], monitored_files sta) = (mods0, monitored)"
    by (cases "scan_modules (init_py env) (py_files env) ([], monitored_files sta)") auto
  from pl cc sc obtain apps1 where
    "term_deleted (deleted_modules exit (py_files env) monitored) apps0
       (sta\<lparr>monitored_files := monitored\<rparr>) = (Inr apps1, st1)"
    by (auto simp: plan_updates_def split: prod.splits sum.splits)
  with cc sc show ?thesis by (rule that)
qed

lemma plan_updates_settles_modules:
  assumes pl: "plan_updates restarted False env st = (Inr (apps, mods), st1)"
  shows "modules_settled env st1"
proof -
  from pl obtain apps0 sta mods0 monitored apps1 where
    sc: "scan_modules (init_py env) (py_files env) ([], monitored_files sta) = (mods0, monitored)"
    and td: "term_deleted (deleted_modules False (py_files env) monitored) apps0
       (sta\<lparr>monitored_files := monitored\<rparr>) = (Inr apps1, st1)"
    by (rule plan_updates_term_deleted)
  let ?gone = "deleted_modules False (py_files env) monitored"
  from term_deleted_state [OF td] have
    mon: "\<And>f. map_of (monitored_files st1) f =
                (if f \<in> set ?gone then None else map_of monitored f)"
    by simp
  have utd: "up_to_date (init_py env) (py_files env) (monitored_files st1)"
    unfolding up_to_date_def
  proof (clarify)
    fix f modified
    assume mem: "(f, Some modified) \<in> set (py_files env)" and ni: "f \<noteq> init_py env"
    from scan_modules_covers [OF sc] mem ni obtain recorded where
      r: "map_of monitored f = Some recorded" "modified \<le> recorded"
      by (fastforce simp: up_to_date_def)
    from mem have "f \<in> fst ` set (py_files env)" by force
    then have "f \<notin> set ?gone" by (simp add: deleted_modules_set)
    with mon [of f] r show "\<exists>recorded. map_of (monitored_files st1) f = Some recorded \<and>
                              modified \<le> recorded" by simp
  qed
  have keys: "fst ` set (monitored_files st1) \<subseteq> fst ` set (py_files env)"
  proof
    fix g
    assume "g \<in> fst ` set (monitored_files st1)"
    then have "map_of (monitored_files st1) g \<noteq> None" by (simp add: map_of_eq_None_iff)
    with mon [of g] have ng: "g \<notin> set ?gone" and "map_of monitored g \<noteq> None"
      by (auto split: if_splits)
    then have "g \<in> fst ` set monitored" by (simp add: map_of_eq_None_iff)
    with ng show "g \<in> fst ` set (py_files env)" by (simp add: deleted_modules_set)
  qed
  from utd keys show ?thesis by (simp add: modules_settled_def)
qed

lemma plan_updates_check_config_fields:
  assumes pl: "plan_updates restarted exit env st = (Inr (apps, mods), st1)"
  shows "app_config_files st1 = app_config_files (snd (check_config True env st))"
    and "app_config_file_modified st1 = app_config_file_modified (snd (check_config True env st))"
proof -
  from pl obtain apps0 sta mods0 monitored apps1 where
    cc: "check_config True env st = (apps0, sta)"
    and td: "term_deleted (deleted_modules exit (py_files env) monitored) apps0
       (sta\<lparr>monitored_files := monitored\<rparr>) = (Inr apps1, st1)"
    by (rule plan_updates_term_deleted)
  from term_deleted_state [OF td] have
    frame: "st1 = sta\<lparr>monitored_files := monitored_files st1\<rparr>" by simp
  from frame have "app_config_files st1 = app_config_files sta"
    and "app_config_file_modified st1 = app_config_file_modified sta"
    by (metis state.select_convs state.update_convs state.surjective)+
  with cc show "app_config_files st1 = app_config_files (snd (check_config True env st))"
    and "app_config_file_modified st1 = app_config_file_modified (snd (check_config True env st))"
    by simp_all
qed

lemma plan_updates_settles_documents:
  assumes dir: "config_file env = None"
    and pl: "plan_updates restarted exit env st = (Inr (apps, mods), st1)"
  shows "documents_settled env st1"
proof -
  obtain apps0 sta where cc: "check_config True env st = (apps0, sta)"
    by (cases "check_config True env st") auto
  from plan_updates_check_config_fields [OF pl] cc check_config_records [OF dir cc] have
    listing: "app_config_files st1 = Some (map fst (yaml_files env))"
    and wm: "app_config_file_modified st1 =
           Max (insert (app_config_file_modified st) ((\<lambda>(file, ts, doc). ts) ` set (yaml_files env)))"
    by simp_all
  have old: "\<forall>(file, ts, doc) \<in> set (yaml_files env). ts \<le> app_config_file_modified st1"
  proof (clarify)
    fix f ts doc
    assume "(f, ts, doc) \<in> set (yaml_files env)"
    then have "ts \<in> insert (app_config_file_modified st)
                  ((\<lambda>(file, ts, doc). ts) ` set (yaml_files env))" by force
    then show "ts \<le> app_config_file_modified st1"
      unfolding wm by (intro Max_ge) simp_all
  qed
  from listing old show ?thesis by (simp add: documents_settled_def)
qed

lemma settled_plan:
  assumes se: "modules_settled env st"
    and cc: "check_config True env st = (apps0, st')"
  shows "plan_updates None False env st = (Inr (apps0, []), st')"
proof -
  from se have utd: "up_to_date (init_py env) (py_files env) (monitored_files st)"
    and keys: "fst ` set (monitored_files st) \<subseteq> fst ` set (py_files env)"
    by (simp_all add: modules_settled_def)
  from check_config_monitored_files [of True env st] cc
  have mf: "monitored_files st' = monitored_files st" by simp
  have sc: "scan_modules (init_py env) (py_files env) ([], monitored_files st') =
              ([], monitored_files st')"
    using scan_modules_unchanged [OF utd] mf by simp
  have "set (deleted_modules False (py_files env) (monitored_files st')) = {}"
    using keys mf by (simp add: deleted_modules_set)
  then have dm: "deleted_modules False (py_files env) (monitored_files st') = []" by simp
  have same: "st'\<lparr>monitored_files := monitored_files st'\<rparr> = st'" by simp
  show ?thesis
    by (simp add: plan_updates_def cc sc dm same)
qed

text \<open>
  The terminate, load and initialize phases leave alone what the planning
  recorded.
\<close>

definition recorded ::
  "state \<Rightarrow> config \<times> timestamp \<times> path list option \<times> (path \<times> timestamp) list" where
  "recorded st =
     (app_config st, app_config_file_modified st, app_config_files st, monitored_files st)"

lemma recorded_term_object: "recorded (term_object name st) = recorded st"
  by (simp add: recorded_def term_object_def)

lemma recorded_fold_term_object: "recorded (fold term_object names st) = recorded st"
  by (induction names arbitrary: st) (simp_all add: recorded_term_object)

lemma recorded_terminate_phase: "recorded (snd (terminate_phase apps st)) = recorded st"
  by (simp add: terminate_phase_def recorded_fold_term_object split: option.splits sum.splits)

lemma recorded_import_module: "recorded (snd (import_module env m st)) = recorded st"
  by (simp add: import_module_def recorded_def)

lemma recorded_load_app: "recorded (snd (load_app env p st)) = recorded st"
  by (simp add: load_app_def Let_def recorded_import_module
        split: sum.splits option.splits bool.splits)

lemma recorded_trace_update: "recorded (st\<lparr>trace := evs\<rparr>) = recorded st"
  by (simp add: recorded_def)

lemma recorded_read_app: "recorded (snd (read_app env p reload st)) = recorded st"
  by (simp add: read_app_def Let_def recorded_load_app recorded_trace_update)

lemma recorded_remove_failed: "recorded (snd (remove_failed m cfg apps st)) = recorded st"
  by (induction m cfg apps st rule: remove_failed.induct)
     (simp_all add: recorded_trace_update split: sum.splits option.splits)

lemma recorded_load_modules: "recorded (snd (load_modules env mods apps st)) = recorded st"
proof (induction mods arbitrary: apps st)
  case Nil
  show ?case by simp
next
  case (Cons x mods)
  obtain p reload where x: "x = (p, reload)" by (cases x)
  obtain r st1 where ra: "read_app env p reload st = (r, st1)"
    by (cases "read_app env p reload st") auto
  from recorded_read_app [of env p reload st] ra have r1: "recorded st1 = recorded st" by simp
  show ?case
  proof (cases r)
    case (Inr u)
    with x ra Cons.IH [of apps st1] r1 show ?thesis by simp
  next
    case (Inl err)
    obtain r2 st2 where
      rf: "remove_failed (get_module_from_path p) (app_config st1) apps st1 = (r2, st2)"
      by (cases "remove_failed (get_module_from_path p) (app_config st1) apps st1") auto
    from recorded_remove_failed [of "get_module_from_path p" "app_config st1" apps st1] rf r1
    have r2: "recorded st2 = recorded st" by simp
    show ?thesis
    proof (cases r2)
      case (Inl err')
      with \<open>r = Inl err\<close> x ra rf r2 show ?thesis by simp
    next
      case (Inr apps')
      with \<open>r = Inl err\<close> x ra rf r2 Cons.IH [of apps' st2] show ?thesis by simp
    qed
  qed
qed

lemma recorded_init_object: "recorded (snd (init_object env name st)) = recorded st"
  by (simp add: init_object_def Let_def recorded_def
        split: option.splits entry.splits construct_outcome.splits)

lemma recorded_construct_apps: "recorded (construct_apps env order st) = recorded st"
  by (induction order arbitrary: st)
     (simp_all add: recorded_init_object split: option.splits sum.splits bool.splits)

lemma recorded_initialize_apps: "recorded (snd (initialize_apps order st)) = recorded st"
  by (induction order arbitrary: st)
     (simp_all add: recorded_trace_update split: option.splits sum.splits bool.splits)

lemma recorded_init_phase: "recorded (snd (init_phase env apps st)) = recorded st"
  by (simp add: init_phase_def Let_def recorded_initialize_apps recorded_trace_update
        recorded_construct_apps split: option.splits sum.splits)

lemma recorded_check_app_updates:
  assumes en: "apps_enabled env"
    and pl: "plan_updates restarted exit env st = (Inr (apps, mods), stp)"
  shows "recorded (snd (check_app_updates restarted exit env st)) = recorded stp"
proof -
  obtain r2 st2 where tp: "terminate_phase apps stp = (r2, st2)"
    by (cases "terminate_phase apps stp") auto
  from recorded_terminate_phase [of apps stp] tp have s2: "recorded st2 = recorded stp" by simp
  obtain r3 st3 where lm: "load_modules env mods apps st2 = (r3, st3)"
    by (cases "load_modules env mods apps st2") auto
  from recorded_load_modules [of env mods apps st2] lm s2 have s3: "recorded st3 = recorded stp"
    by simp
  show ?thesis
    using en pl tp lm s2 s3 recorded_init_phase [of env _ st3]
    by (simp add: check_app_updates_def split: sum.splits)
qed


text \<open>
  Claim C8, as the code has it.  A first cycle \<^verbatim>\<open>check_app_updates(plugin)\<close>
  whose planning returns is followed by a second cycle \<^verbatim>\<open>check_app_updates()\<close>
  that finds the same documents and modules.  The second cycle plans nothing:
  its plan has an empty initialize set and an empty terminate set (with the
  deprecated configuration file \<open>check_config\<close> returns no plan at all), no
  module is listed for loading, the cycle ends without an exception, and the
  registry, the configuration, the watermark, the listing of documents and
  the monitored files are left as they were.
\<close>

theorem second_cycle_plans_nothing:
  assumes en: "apps_enabled env"
    and first: "plan_updates restarted False env st = (Inr (apps, mods), stp)"
    and after: "st1 = snd (check_app_updates restarted False env st)"
  shows "fst (plan_updates None False env st1) =
           Inr (if config_file env = None
                then Some \<lparr>init_apps = [], term_apps = [], total_apps = length (app_config st1)\<rparr>
                else None, []) \<and>
         fst (check_app_updates None False env st1) = Inr () \<and>
         objects (snd (check_app_updates None False env st1)) = objects st1 \<and>
         app_config (snd (check_app_updates None False env st1)) = app_config st1 \<and>
         app_config_file_modified (snd (check_app_updates None False env st1)) =
           app_config_file_modified st1 \<and>
         app_config_files (snd (check_app_updates None False env st1)) = app_config_files st1 \<and>
         monitored_files (snd (check_app_updates None False env st1)) = monitored_files st1"
proof -
  from recorded_check_app_updates [OF en first] after have "recorded st1 = recorded stp" by simp
  then have same: "app_config_files st1 = app_config_files stp"
    "app_config_file_modified st1 = app_config_file_modified stp"
    "monitored_files st1 = monitored_files stp"
    by (simp_all add: recorded_def)
  from plan_updates_settles_modules [OF first] same(3) have ms: "modules_settled env st1"
    by (simp add: modules_settled_def)
  let ?p = "\<lparr>init_apps = [], term_apps = [], total_apps = length (app_config st1)\<rparr>"
  let ?apps = "if config_file env = None then Some ?p else None"
  have "\<exists>st2. check_config True env st1 = (?apps, st2) \<and> objects st2 = objects st1 \<and>
          app_config st2 = app_config st1 \<and>
          app_config_file_modified st2 = app_config_file_modified st1 \<and>
          app_config_files st2 = app_config_files st1"
  proof (cases "config_file env")
    case None
    from plan_updates_settles_documents [OF None first] same(1,2)
    have ds: "app_config_files st1 = Some (map fst (yaml_files env))"
      "\<forall>(file, ts, doc) \<in> set (yaml_files env). ts \<le> app_config_file_modified st1"
      by (simp_all add: documents_settled_def)
    obtain r st2 where
      fin: "finish_check_config True env st1 [] [] (length (app_config st1)) = (r, st2)"
      by (cases "finish_check_config True env st1 [] [] (length (app_config st1))") auto
    from finish_check_config_result [OF fin] check_config_unchanged [OF None ds, of True] fin None
    show ?thesis by simp
  next
    case (Some c)
    obtain f ts content where c: "c = (f, ts, content)" by (cases c)
    from Some c have cf: "config_file env = Some (f, ts, content)" by simp
    from plan_updates_check_config_fields(2) [OF first] check_config_deprecated [OF cf, of True st]
      same(2)
    have "app_config_file_modified st1 = ts" by simp
    then have "st1\<lparr>app_config_file_modified := ts\<rparr> = st1" by auto
    with check_config_deprecated [OF cf, of True st1] Some show ?thesis by simp
  qed
  then obtain st2 where cc: "check_config True env st1 = (?apps, st2)"
    and fr: "objects st2 = objects st1" "app_config st2 = app_config st1"
      "app_config_file_modified st2 = app_config_file_modified st1"
      "app_config_files st2 = app_config_files st1"
    by blast
  from check_config_monitored_files [of True env st1] cc
  have mf: "monitored_files st2 = monitored_files st1" by simp
  from settled_plan [OF ms cc] have pl: "plan_updates None False env st1 = (Inr (?apps, []), st2)" .
  have "check_app_updates None False env st1 = (Inr (), st2)"
    by (simp add: check_app_updates_def en pl terminate_phase_def init_phase_def)
  with pl fr mf show ?thesis by simp
qed

text \<open>
  An example: \<open>A\<close> and \<open>B\<close> are running and the module of \<open>A\<close> was modified
  before the first cycle.
\<close>

definition env_a_modified :: env where
  "env_a_modified = basic_env
     [(''apps.yaml'', 10, Dict [(''A'', Body (plain_app ''a'' None)),
                                (''B'', Body (plain_app ''b'' (Some [''A''])))])]
     [(''a.py'', Some 7), (''b.py'', Some 5)]"

definition a_recorded :: state where
  "a_recorded = running_state\<lparr>monitored_files := [(''a.py'', 7), (''b.py'', 5)]\<rparr>"

lemma a_module: "get_module_from_path ''a.py'' = ''a''"
  by (simp add: get_module_from_path_def basename_def splitext_root_def)

lemma plan_updates_a_modified:
  "plan_updates None False env_a_modified running_state =
     (Inr (Some \<lparr>init_apps = [''A''], term_apps = [''A''], total_apps = 2\<rparr>, [(''a.py'', True)]),
      a_recorded)"
proof -
  have cc: "check_config True env_a_modified running_state =
     (Some \<lparr>init_apps = [], term_apps = [], total_apps = 2\<rparr>, running_state)"
    by (simp add: check_config_def check_later_app_configs_def finish_check_config_def
          env_a_modified_def basic_env_def running_state_def Let_def)
  have sc: "scan_modules (init_py env_a_modified) (py_files env_a_modified)
      ([], monitored_files running_state) = ([(''a.py'', True)], [(''a.py'', 7), (''b.py'', 5)])"
    by (simp add: env_a_modified_def basic_env_def running_state_def)
  have dm: "deleted_modules False (py_files env_a_modified) [(''a.py'', 7), (''b.py'', 5)] = []"
    by (simp add: deleted_modules_def env_a_modified_def basic_env_def)
  have mm: "mark_modules (app_config running_state) [(''a.py'', True)]
              (Some \<lparr>init_apps = [], term_apps = [], total_apps = 2\<rparr>) =
            Inr (Some \<lparr>init_apps = [''A''], term_apps = [''A''], total_apps = 2\<rparr>)"
    by (simp add: a_module running_state_def plain_app_def global_module_names_def dict_add_def)
  show ?thesis
    by (simp add: plan_updates_def cc sc dm mm a_recorded_def del: mark_modules.simps)
qed

theorem second_cycle_plans_nothing_witness:
  "apps_enabled env_a_modified \<and> config_file env_a_modified = None \<and>
   plan_updates None False env_a_modified running_state =
     (Inr (Some \<lparr>init_apps = [''A''], term_apps = [''A''], total_apps = 2\<rparr>, [(''a.py'', True)]),
      a_recorded) \<and>
   fst (plan_updates None False env_a_modified
          (snd (check_app_updates None False env_a_modified running_state))) =
     Inr (Some \<lparr>init_apps = [], term_apps = [],
            total_apps = length (app_config
               (snd (check_app_updates None False env_a_modified running_state)))\<rparr>, []) \<and>
   fst (check_app_updates None False env_a_modified
          (snd (check_app_updates None False env_a_modified running_state))) = Inr () \<and>
   objects (snd (check_app_updates None False env_a_modified
          (snd (check_app_updates None False env_a_modified running_state)))) =
     objects (snd (check_app_updates None False env_a_modified running_state))"
proof -
  have h1: "apps_enabled env_a_modified" by (simp add: env_a_modified_def basic_env_def)
  have h2: "config_file env_a_modified = None" by (simp add: env_a_modified_def basic_env_def)
  note concl = second_cycle_plans_nothing [OF h1 plan_updates_a_modified refl, unfolded if_P [OF h2]]
  show ?thesis
    by (intro conjI) (rule h1 h2 plan_updates_a_modified concl [THEN conjunct1]
          concl [THEN conjunct2, THEN conjunct1]
          concl [THEN conjunct2, THEN conjunct2, THEN conjunct1])+
qed

lemma b_module: "get_module_from_path ''b.py'' = ''b''"
  by (simp add: get_module_from_path_def basename_def splitext_root_def)

lemma check_config_a_recorded:
  "check_config True env_a_modified a_recorded =
     (Some \<lparr>init_apps = [], term_apps = [], total_apps = 2\<rparr>, a_recorded)"
  by (simp add: check_config_def check_later_app_configs_def finish_check_config_def
        env_a_modified_def basic_env_def running_state_def a_recorded_def Let_def)

lemma scan_modules_a_recorded:
  "scan_modules (init_py env_a_modified) (py_files env_a_modified)
      ([], monitored_files a_recorded) = ([], [(''a.py'', 7), (''b.py'', 5)])"
  by (simp add: env_a_modified_def basic_env_def a_recorded_def)

lemma plugin_restart_plan:
  "fst (plan_updates (Some ''HASS'') False env_a_modified a_recorded) =
     Inr (Some \<lparr>init_apps = [''A'', ''B''], term_apps = [''A'', ''B''], total_apps = 2\<rparr>, [])"
proof -
  have dm: "deleted_modules False (py_files env_a_modified) [(''a.py'', 7), (''b.py'', 5)] = []"
    by (simp add: deleted_modules_def env_a_modified_def basic_env_def)
  have mp: "mark_plugin ''HASS'' (app_config a_recorded)
              (Some \<lparr>init_apps = [], term_apps = [], total_apps = 2\<rparr>) =
            Inr (Some \<lparr>init_apps = [''A'', ''B''], term_apps = [''A'', ''B''], total_apps = 2\<rparr>)"
    by (simp add: a_recorded_def running_state_def plain_app_def dict_add_def)
  show ?thesis
    by (simp add: plan_updates_def check_config_a_recorded scan_modules_a_recorded dm mp
          del: mark_plugin.simps)
qed

lemma exit_plan:
  "fst (plan_updates None True env_a_modified a_recorded) =
     Inr (Some \<lparr>init_apps = [], term_apps = [''A'', ''B''], total_apps = 2\<rparr>, [])"
proof -
  have dm: "deleted_modules True (py_files env_a_modified) [(''a.py'', 7), (''b.py'', 5)] =
              [''a.py'', ''b.py'']"
    by (simp add: deleted_modules_def env_a_modified_def basic_env_def)
  have td: "fst (term_deleted [''a.py'', ''b.py'']
              (Some \<lparr>init_apps = [], term_apps = [], total_apps = 2\<rparr>)
              (a_recorded\<lparr>monitored_files := [(''a.py'', 7), (''b.py'', 5)]\<rparr>)) =
            Inr (Some \<lparr>init_apps = [], term_apps = [''A'', ''B''], total_apps = 2\<rparr>)"
    by (simp add: a_module b_module a_recorded_def running_state_def plain_app_def dict_add_def
          Let_def)
  then obtain st2 where td': "term_deleted [''a.py'', ''b.py'']
              (Some \<lparr>init_apps = [], term_apps = [], total_apps = 2\<rparr>)
              (a_recorded\<lparr>monitored_files := [(''a.py'', 7), (''b.py'', 5)]\<rparr>) =
            (Inr (Some \<lparr>init_apps = [], term_apps = [''A'', ''B''], total_apps = 2\<rparr>), st2)"
    by (metis prod.collapse)
  show ?thesis
    by (simp add: plan_updates_def check_config_a_recorded scan_modules_a_recorded dm td'
          del: term_deleted.simps)
qed

text \<open>
  Claim C8, as stated, fails for the first of the two cycles: in the example
  nothing changes between the cycles, the plan of the first holds \<open>A\<close> in both
  sets, and the plan made from the state the first planning leaves is empty.
  The second plan is not empty either when the second cycle is run for a
  restarted plugin or with \<^verbatim>\<open>exit=True\<close>.
\<close>

theorem first_cycle_plan_not_empty:
  "config_file env_a_modified = None \<and>
   fst (plan_updates None False env_a_modified running_state) =
     Inr (Some \<lparr>init_apps = [''A''], term_apps = [''A''], total_apps = 2\<rparr>, [(''a.py'', True)]) \<and>
   snd (plan_updates None False env_a_modified running_state) = a_recorded \<and>
   fst (plan_updates None False env_a_modified a_recorded) =
     Inr (Some \<lparr>init_apps = [], term_apps = [], total_apps = 2\<rparr>, []) \<and>
   fst (plan_updates (Some ''HASS'') False env_a_modified a_recorded) =
     Inr (Some \<lparr>init_apps = [''A'', ''B''], term_apps = [''A'', ''B''], total_apps = 2\<rparr>, []) \<and>
   fst (plan_updates None True env_a_modified a_recorded) =
     Inr (Some \<lparr>init_apps = [], term_apps = [''A'', ''B''], total_apps = 2\<rparr>, [])"
proof -
  have cc: "check_config True env_a_modified a_recorded =
     (Some \<lparr>init_apps = [], term_apps = [], total_apps = 2\<rparr>, a_recorded)"
    by (simp add: check_config_def check_later_app_configs_def finish_check_config_def
          env_a_modified_def basic_env_def running_state_def a_recorded_def Let_def)
  have sc: "scan_modules (init_py env_a_modified) (py_files env_a_modified)
      ([], monitored_files a_recorded) = ([], [(''a.py'', 7), (''b.py'', 5)])"
    by (simp add: env_a_modified_def basic_env_def a_recorded_def)
  have dm: "deleted_modules False (py_files env_a_modified) [(''a.py'', 7), (''b.py'', 5)] = []"
    by (simp add: deleted_modules_def env_a_modified_def basic_env_def)
  have second: "fst (plan_updates None False env_a_modified a_recorded) =
     Inr (Some \<lparr>init_apps = [], term_apps = [], total_apps = 2\<rparr>, [])"
    by (simp add: plan_updates_def cc sc dm)
  have dir: "config_file env_a_modified = None" by (simp add: env_a_modified_def basic_env_def)
  from dir second show ?thesis
    by (simp add: plan_updates_a_modified plugin_restart_plan exit_plan)
qed

end
